theory Spec2Isabelle
  imports Main "HOL-Library.Countable"
begin

section \<open>Values of the sparse Merkle tree\<close>

text \<open>
  Keys, values and node identifiers are JavaScript strings or big integers
  (\<open>Node = string | bigint\<close>).  A string is a list of code units below 256.
  The numbers that occur as path elements are the results of \<open>Number(c)\<close> on the
  characters of a binary string: 0, 1, or NaN (for the characters of \<open>"NaN"\<close> and
  for the sign of a negative big integer).
\<close>

datatype val = Str string | Big int

datatype jsnum = N0 | N1 | NaN

datatype error =
  InvalidHashFunctionOutput | InvalidParameterType | KeyAlreadyExists | KeyNotFound | TypeError
  | RangeError

text \<open>
  The node store only ever receives the two-element arrays built by \<open>addNewNodes\<close> and
  the three-element arrays \<open>[key, value, entryMark]\<close> built by \<open>add\<close> and \<open>update\<close>.
\<close>

datatype childNodes = Pair val val | Triple val val val

type_synonym hashFunction = "val list \<Rightarrow> val"

fun elems :: "childNodes \<Rightarrow> val list" where
  "elems (Pair a b) = [a, b]"
| "elems (Triple a b c) = [a, b, c]"

text \<open>\<open>xs[i]\<close>, with \<open>None\<close> for \<open>undefined\<close>.\<close>

definition at :: "'a list \<Rightarrow> nat \<Rightarrow> 'a option" where
  "at xs i = (if i < length xs then Some (xs ! i) else None)"

text \<open>JavaScript truthiness of a string or a big integer.\<close>

fun truthy :: "val \<Rightarrow> bool" where
  "truthy (Str s) = (s \<noteq> [])"
| "truthy (Big n) = (n \<noteq> 0)"

text \<open>\<open>a === b\<close> on numbers: NaN is not equal to itself.\<close>

definition strictEq :: "jsnum \<Rightarrow> jsnum \<Rightarrow> bool" where
  "strictEq a b = (a = b \<and> a \<noteq> NaN)"

text \<open>\<open>a === b\<close> on array reads that may be \<open>undefined\<close>.\<close>

fun strictEqU :: "jsnum option \<Rightarrow> jsnum option \<Rightarrow> bool" where
  "strictEqU None None = True"
| "strictEqU (Some a) (Some b) = strictEq a b"
| "strictEqU _ _ = False"

section \<open>Path codec\<close>

text \<open>\<open>n.toString(2)\<close> for a non-negative integer.\<close>

fun toString2 :: "nat \<Rightarrow> string" where
  "toString2 n =
     (if n < 2 then [if n = 0 then CHR ''0'' else CHR ''1'']
      else toString2 (n div 2) @ [if n mod 2 = 0 then CHR ''0'' else CHR ''1''])"

declare toString2.simps [simp del]

text \<open>\<open>Number(`0x${c}`)\<close> for one character \<open>c\<close>; \<open>None\<close> is NaN.\<close>

definition hexDigit :: "char \<Rightarrow> nat option" where
  "hexDigit c =
     (let n = (of_char c :: nat) in
      if 48 \<le> n \<and> n \<le> 57 then Some (n - 48)
      else if 65 \<le> n \<and> n \<le> 70 then Some (n - 55)
      else if 97 \<le> n \<and> n \<le> 102 then Some (n - 87)
      else None)"

text \<open>\<open>x.toString(2)\<close> for a number that may be NaN.\<close>

fun numberToString2 :: "nat option \<Rightarrow> string" where
  "numberToString2 None = ''NaN''"
| "numberToString2 (Some n) = toString2 n"

text \<open>\<open>s.padStart(n, "0")\<close>.\<close>

definition padStart :: "nat \<Rightarrow> string \<Rightarrow> string" where
  "padStart n s = replicate (n - length s) (CHR ''0'') @ s"

text \<open>The loop of \<open>hexToBin\<close> over the characters \<open>n[1], n[2], ...\<close>.\<close>

fun hexToBin_loop :: "string \<Rightarrow> string \<Rightarrow> string" where
  "hexToBin_loop [] bin = bin"
| "hexToBin_loop (c # cs) bin =
     hexToBin_loop cs (bin @ padStart 4 (numberToString2 (hexDigit c)))"

text \<open>
  \<open>hexToBin(n)\<close>.  For the empty string \<open>n[0]\<close> is \<open>undefined\<close>, and
  \<open>Number("0xundefined")\<close> is NaN.
\<close>

definition hexToBin :: "string \<Rightarrow> string" where
  "hexToBin n =
     (case n of
        [] \<Rightarrow> ''NaN''
      | c # cs \<Rightarrow> hexToBin_loop cs (numberToString2 (hexDigit c)))"

text \<open>\<open>key.toString(2)\<close> for a big integer, or \<open>hexToBin(key)\<close>.\<close>

fun keyBits :: "val \<Rightarrow> string" where
  "keyBits (Big k) = (if k < 0 then CHR ''-'' # toString2 (nat (- k)) else toString2 (nat k))"
| "keyBits (Str s) = hexToBin s"

text \<open>
  \<open>Number(c)\<close> on a character of the padded bit string, which holds only
  \<open>0\<close>, \<open>1\<close>, \<open>N\<close>, \<open>a\<close> and \<open>-\<close>.
\<close>

definition toNumber :: "char \<Rightarrow> jsnum" where
  "toNumber c = (if c = CHR ''0'' then N0 else if c = CHR ''1'' then N1 else NaN)"

definition keyToPath :: "val \<Rightarrow> jsnum list" where
  "keyToPath key = map toNumber (rev (padStart 256 (keyBits key)))"

text \<open>\<open>/^[0-9A-Fa-f]{1,64}$/.test(n)\<close> on a string; a big integer is not a string.\<close>

fun checkHex :: "val \<Rightarrow> bool" where
  "checkHex (Str s) = (1 \<le> length s \<and> length s \<le> 64 \<and> list_all (\<lambda>c. hexDigit c \<noteq> None) s)"
| "checkHex (Big k) = False"

section \<open>Array helpers\<close>

text \<open>
  \<open>Number(`0x${x}`) === 0\<close>.  For a big integer the template prints its decimal
  digits, read back as hexadecimal: the result is 0 only for \<open>0n\<close> (a negative
  one gives NaN).  For a string the result is 0 when the string, without trailing
  white space, is a non-empty run of \<open>0\<close>.
\<close>

definition isWhiteSpace :: "char \<Rightarrow> bool" where
  "isWhiteSpace c = ((of_char c :: nat) \<in> {9, 10, 11, 12, 13, 32, 160})"

fun isZeroNumber :: "val \<Rightarrow> bool" where
  "isZeroNumber (Big k) = (k = 0)"
| "isZeroNumber (Str s) =
     (let t = rev (dropWhile isWhiteSpace (rev s))
      in t \<noteq> [] \<and> list_all (\<lambda>c. c = CHR ''0'') t)"

text \<open>The loop of \<open>getIndexOfLastNonZeroElement\<close>; the counter is \<open>i + 1\<close>.\<close>

fun getIndexOfLastNonZeroElement_loop :: "val list \<Rightarrow> nat \<Rightarrow> int" where
  "getIndexOfLastNonZeroElement_loop array 0 = - 1"
| "getIndexOfLastNonZeroElement_loop array (Suc i) =
     (if \<not> isZeroNumber (array ! i) then int i
      else getIndexOfLastNonZeroElement_loop array i)"

definition getIndexOfLastNonZeroElement :: "val list \<Rightarrow> int" where
  "getIndexOfLastNonZeroElement array = getIndexOfLastNonZeroElement_loop array (length array)"

function getFirstCommonElements_loop ::
  "jsnum list \<Rightarrow> jsnum list \<Rightarrow> jsnum list \<Rightarrow> nat \<Rightarrow> jsnum list" where
  "getFirstCommonElements_loop array1 array2 minArray i =
     (if i < length minArray then
        (if \<not> strictEq (array1 ! i) (array2 ! i) then take i minArray
         else getFirstCommonElements_loop array1 array2 minArray (i + 1))
      else minArray)"
  by pat_completeness auto
termination
  by (relation "measure (\<lambda>(a1, a2, m, i). length m - i)") auto

declare getFirstCommonElements_loop.simps [simp del]

definition getFirstCommonElements :: "jsnum list \<Rightarrow> jsnum list \<Rightarrow> jsnum list" where
  "getFirstCommonElements array1 array2 =
     (let minArray = (if length array1 < length array2 then array1 else array2)
      in getFirstCommonElements_loop array1 array2 minArray 0)"

section \<open>The tree object\<close>

record entryResponse =
  entry :: "val list"
  matchingEntry :: "val list option"
  siblings :: "val list"

text \<open>A proof: the response of the entry locator with the root (the field \<open>root\<close> of
  the source, here \<open>proofRoot\<close>) and the membership flag.\<close>

record merkleProof = entryResponse +
  proofRoot :: val
  membership :: bool

record smt =
  bigNumbers :: bool
  nodes :: "val \<rightharpoonup> childNodes"
  root :: val

text \<open>The outcome of a mutating call: it returns, or it throws; either way the object
  is left in some state.\<close>

datatype outcome = Ok smt | Throw error smt

definition zeroNode :: "smt \<Rightarrow> val" where
  "zeroNode s = (if bigNumbers s then Big 0 else Str ''0'')"

definition entryMark :: "smt \<Rightarrow> val" where
  "entryMark s = (if bigNumbers s then Big 1 else Str ''1'')"

text \<open>The constructor.\<close>

definition new_SMT :: "hashFunction \<Rightarrow> bool \<Rightarrow> error + smt" where
  "new_SMT hash bigNums =
     (if bigNums then
        (case hash [Big 1, Big 1] of
           Big k \<Rightarrow> Inr \<lparr>bigNumbers = True, nodes = Map.empty, root = Big 0\<rparr>
         | Str x \<Rightarrow> Inl InvalidHashFunctionOutput)
      else if \<not> checkHex (hash [Str ''1'', Str ''1'']) then Inl InvalidHashFunctionOutput
      else Inr \<lparr>bigNumbers = False, nodes = Map.empty, root = Str ''0''\<rparr>)"

text \<open>\<open>checkParameterType\<close>: the error it throws, if any.\<close>

definition checkParameterType :: "smt \<Rightarrow> val \<Rightarrow> error option" where
  "checkParameterType s parameter =
     (if bigNumbers s \<and> (case parameter of Big k \<Rightarrow> False | Str x \<Rightarrow> True)
        then Some InvalidParameterType
      else if \<not> bigNumbers s \<and> \<not> checkHex parameter then Some InvalidParameterType
      else None)"

text \<open>\<open>path[i] ? ... : ...\<close>: only the number 1 is truthy among 0, 1, NaN and
  \<open>undefined\<close>.\<close>

definition pathTruthy :: "jsnum list \<Rightarrow> nat \<Rightarrow> bool" where
  "pathTruthy path i = (at path i = Some N1)"

text \<open>\<open>childNodes[2]\<close> is truthy.\<close>

fun isEntry :: "childNodes \<Rightarrow> bool" where
  "isEntry (Pair a b) = False"
| "isEntry (Triple a b m) = truthy m"

fun child0 :: "childNodes \<Rightarrow> val" where
  "child0 (Pair a b) = a"
| "child0 (Triple a b m) = a"

fun child1 :: "childNodes \<Rightarrow> val" where
  "child1 (Pair a b) = b"
| "child1 (Triple a b m) = b"

text \<open>
  The loop of \<open>retrieveEntry\<close>.  When \<open>path[i]\<close> is NaN or \<open>undefined\<close> the
  next node is \<open>undefined\<close>, which the store does not hold, and the next
  iteration throws a TypeError on \<open>childNodes[2]\<close>; so does a node identifier
  missing from the store.
\<close>

function retrieveEntry_loop ::
  "smt \<Rightarrow> val \<Rightarrow> jsnum list \<Rightarrow> nat \<Rightarrow> val \<Rightarrow> val list \<Rightarrow> error + entryResponse" where
  "retrieveEntry_loop s key path i node sibs =
     (if node = zeroNode s then Inr \<lparr>entry = [key], matchingEntry = None, siblings = sibs\<rparr>
      else
        (case nodes s node of
           None \<Rightarrow> Inl TypeError
         | Some cn \<Rightarrow>
             if isEntry cn then
               (if child0 cn = key
                  then Inr \<lparr>entry = elems cn, matchingEntry = None, siblings = sibs\<rparr>
                else Inr \<lparr>entry = [key], matchingEntry = Some (elems cn), siblings = sibs\<rparr>)
             else
               (case at path i of
                  Some N0 \<Rightarrow> retrieveEntry_loop s key path (i + 1) (child0 cn) (sibs @ [child1 cn])
                | Some N1 \<Rightarrow> retrieveEntry_loop s key path (i + 1) (child1 cn) (sibs @ [child0 cn])
                | Some NaN \<Rightarrow> Inl TypeError
                | None \<Rightarrow> Inl TypeError)))"
  by pat_completeness auto
termination
  by (relation "measure (\<lambda>(s, key, path, i, node, sibs). length path - i)")
     (auto simp: at_def split: if_splits)

declare retrieveEntry_loop.simps [simp del]

definition retrieveEntry :: "smt \<Rightarrow> val \<Rightarrow> error + entryResponse" where
  "retrieveEntry s key = retrieveEntry_loop s key (keyToPath key) 0 (root s) []"

text \<open>The bottom-up loops; the counter is \<open>i + 1\<close>.\<close>

definition parentOf :: "jsnum list \<Rightarrow> nat \<Rightarrow> val \<Rightarrow> val list \<Rightarrow> childNodes" where
  "parentOf path i node sibs =
     (if pathTruthy path i then Pair (sibs ! i) node else Pair node (sibs ! i))"

fun calculateRoot_loop ::
  "hashFunction \<Rightarrow> val \<Rightarrow> jsnum list \<Rightarrow> val list \<Rightarrow> nat \<Rightarrow> val" where
  "calculateRoot_loop hash node path sibs 0 = node"
| "calculateRoot_loop hash node path sibs (Suc i) =
     calculateRoot_loop hash (hash (elems (parentOf path i node sibs))) path sibs i"

definition calculateRoot :: "hashFunction \<Rightarrow> val \<Rightarrow> jsnum list \<Rightarrow> val list \<Rightarrow> val" where
  "calculateRoot hash node path sibs = calculateRoot_loop hash node path sibs (length sibs)"

fun addNewNodes_loop ::
  "hashFunction \<Rightarrow> (val \<rightharpoonup> childNodes) \<Rightarrow> val \<Rightarrow> jsnum list \<Rightarrow> val list \<Rightarrow> nat
     \<Rightarrow> (val \<rightharpoonup> childNodes) \<times> val" where
  "addNewNodes_loop hash m node path sibs 0 = (m, node)"
| "addNewNodes_loop hash m node path sibs (Suc i) =
     (let cn = parentOf path i node sibs; node' = hash (elems cn)
      in addNewNodes_loop hash (m(node' \<mapsto> cn)) node' path sibs i)"

text \<open>\<open>addNewNodes(node, path, siblings, i)\<close> on the store \<open>m\<close>: the new store and the
  last node.\<close>

definition addNewNodes ::
  "hashFunction \<Rightarrow> (val \<rightharpoonup> childNodes) \<Rightarrow> val \<Rightarrow> jsnum list \<Rightarrow> val list \<Rightarrow> int
     \<Rightarrow> (val \<rightharpoonup> childNodes) \<times> val" where
  "addNewNodes hash m node path sibs i = addNewNodes_loop hash m node path sibs (nat (i + 1))"

fun deleteOldNodes_loop ::
  "hashFunction \<Rightarrow> (val \<rightharpoonup> childNodes) \<Rightarrow> val \<Rightarrow> jsnum list \<Rightarrow> val list \<Rightarrow> nat
     \<Rightarrow> (val \<rightharpoonup> childNodes)" where
  "deleteOldNodes_loop hash m node path sibs 0 = m"
| "deleteOldNodes_loop hash m node path sibs (Suc i) =
     (let node' = hash (elems (parentOf path i node sibs))
      in deleteOldNodes_loop hash (m(node' := None)) node' path sibs i)"

definition deleteOldNodes ::
  "hashFunction \<Rightarrow> (val \<rightharpoonup> childNodes) \<Rightarrow> val \<Rightarrow> jsnum list \<Rightarrow> val list
     \<Rightarrow> (val \<rightharpoonup> childNodes)" where
  "deleteOldNodes hash m node path sibs = deleteOldNodes_loop hash m node path sibs (length sibs)"

definition isLeaf :: "(val \<rightharpoonup> childNodes) \<Rightarrow> val \<Rightarrow> bool" where
  "isLeaf m node = (case m node of None \<Rightarrow> False | Some cn \<Rightarrow> isEntry cn)"

section \<open>Public operations\<close>

definition get :: "smt \<Rightarrow> val \<Rightarrow> error + val option" where
  "get s key =
     (case checkParameterType s key of
        Some e \<Rightarrow> Inl e
      | None \<Rightarrow>
          (case retrieveEntry s key of
             Inl e \<Rightarrow> Inl e
           | Inr r \<Rightarrow> Inr (at (entry r) 1)))"

text \<open>
  \<open>array.push(x)\<close> on the local array of siblings.  An array holds at most
  \<open>2^32 - 1\<close> elements: a push on an array of that length throws a RangeError.
\<close>

definition maxArrayLength :: nat where
  "maxArrayLength = 4294967295"

definition push :: "val list \<Rightarrow> val \<Rightarrow> error + val list" where
  "push xs x = (if length xs < maxArrayLength then Inr (xs @ [x]) else Inl RangeError)"

text \<open>
  The loop of \<open>add\<close> that pushes a zero node for every further index at which the two
  paths agree.  Beyond the end of both paths \<open>undefined === undefined\<close> holds, so for
  two equal paths the loop goes on until the array of siblings is full and \<open>push\<close>
  throws.
\<close>

function extendSiblings ::
  "jsnum list \<Rightarrow> jsnum list \<Rightarrow> val \<Rightarrow> nat \<Rightarrow> val list \<Rightarrow> error + val list" where
  "extendSiblings matchingPath path zero i sibs =
     (if strictEqU (at matchingPath i) (at path i) then
        (case push sibs zero of
           Inl e \<Rightarrow> Inl e
         | Inr sibs' \<Rightarrow> extendSiblings matchingPath path zero (i + 1) sibs')
      else Inr sibs)"
  by pat_completeness auto
termination
  by (relation "measure (\<lambda>(q, p, z, i, sibs). maxArrayLength - length sibs)")
     (auto simp: push_def split: if_splits)

declare extendSiblings.simps [simp del]

text \<open>The last three statements of \<open>add\<close>, on the store \<open>m1\<close> left by \<open>deleteOldNodes\<close>
  and the final siblings.\<close>

definition add_finish ::
  "hashFunction \<Rightarrow> smt \<Rightarrow> (val \<rightharpoonup> childNodes) \<Rightarrow> val \<Rightarrow> val \<Rightarrow> jsnum list \<Rightarrow> val list
     \<Rightarrow> outcome" where
  "add_finish hash s m1 key value path sibs2 =
     (let newNode = hash [key, value, entryMark s];
          m2 = m1(newNode \<mapsto> Triple key value (entryMark s));
          (m3, rt) = addNewNodes hash m2 newNode path sibs2 (int (length sibs2) - 1)
      in Ok (s\<lparr>nodes := m3, root := rt\<rparr>))"

definition add :: "hashFunction \<Rightarrow> smt \<Rightarrow> val \<Rightarrow> val \<Rightarrow> outcome" where
  "add hash s key value =
     (case checkParameterType s key of
        Some e \<Rightarrow> Throw e s
      | None \<Rightarrow>
     (case checkParameterType s value of
        Some e \<Rightarrow> Throw e s
      | None \<Rightarrow>
     (case retrieveEntry s key of
        Inl e \<Rightarrow> Throw e s
      | Inr r \<Rightarrow>
          if at (entry r) 1 \<noteq> None then Throw KeyAlreadyExists s
          else
            let path = keyToPath key;
                node = (case matchingEntry r of Some me \<Rightarrow> hash me | None \<Rightarrow> zeroNode s);
                m1 = (if length (siblings r) > 0
                        then deleteOldNodes hash (nodes s) node path (siblings r)
                      else nodes s)
            in
              (case matchingEntry r of
                 None \<Rightarrow> add_finish hash s m1 key value path (siblings r)
               | Some me \<Rightarrow>
                   (case at me 0 of
                      None \<Rightarrow> Throw TypeError (s\<lparr>nodes := m1\<rparr>)
                    | Some mk \<Rightarrow>
                        (case extendSiblings (keyToPath mk) path (zeroNode s)
                                (length (siblings r)) (siblings r) of
                           Inl e \<Rightarrow> Throw e (s\<lparr>nodes := m1\<rparr>)
                         | Inr sibs1 \<Rightarrow>
                             (case push sibs1 node of
                                Inl e \<Rightarrow> Throw e (s\<lparr>nodes := m1\<rparr>)
                              | Inr sibs2 \<Rightarrow>
                                  add_finish hash s m1 key value path sibs2)))))))"

definition update :: "hashFunction \<Rightarrow> smt \<Rightarrow> val \<Rightarrow> val \<Rightarrow> outcome" where
  "update hash s key value =
     (case checkParameterType s key of
        Some e \<Rightarrow> Throw e s
      | None \<Rightarrow>
     (case checkParameterType s value of
        Some e \<Rightarrow> Throw e s
      | None \<Rightarrow>
     (case retrieveEntry s key of
        Inl e \<Rightarrow> Throw e s
      | Inr r \<Rightarrow>
          if at (entry r) 1 = None then Throw KeyNotFound s
          else
            let path = keyToPath key;
                oldNode = hash (entry r);
                m1 = (nodes s)(oldNode := None);
                m2 = deleteOldNodes hash m1 oldNode path (siblings r);
                newNode = hash [key, value, entryMark s];
                m3 = m2(newNode \<mapsto> Triple key value (entryMark s));
                (m4, rt) = addNewNodes hash m3 newNode path (siblings r)
                             (int (length (siblings r)) - 1)
            in Ok (s\<lparr>nodes := m4, root := rt\<rparr>))))"

definition delete :: "hashFunction \<Rightarrow> smt \<Rightarrow> val \<Rightarrow> outcome" where
  "delete hash s key =
     (case checkParameterType s key of
        Some e \<Rightarrow> Throw e s
      | None \<Rightarrow>
     (case retrieveEntry s key of
        Inl e \<Rightarrow> Throw e s
      | Inr r \<Rightarrow>
          if at (entry r) 1 = None then Throw KeyNotFound s
          else
            let path = keyToPath key;
                node = hash (entry r);
                m1 = (nodes s)(node := None);
                sibs = siblings r
            in
              if length sibs > 0 then
                let m2 = deleteOldNodes hash m1 node path sibs in
                if \<not> isLeaf m2 (last sibs) then
                  let (m3, rt) = addNewNodes hash m2 (zeroNode s) path sibs (int (length sibs) - 1)
                  in Ok (s\<lparr>nodes := m3, root := rt\<rparr>)
                else
                  let firstSibling = last sibs;
                      sibs' = butlast sibs;
                      i = getIndexOfLastNonZeroElement sibs';
                      (m3, rt) = addNewNodes hash m2 firstSibling path sibs' i
                  in Ok (s\<lparr>nodes := m3, root := rt\<rparr>)
              else Ok (s\<lparr>nodes := m1, root := zeroNode s\<rparr>)))"

text \<open>\<open>!!entry[1]\<close>.\<close>

definition createProof :: "smt \<Rightarrow> val \<Rightarrow> error + merkleProof" where
  "createProof s key =
     (case checkParameterType s key of
        Some e \<Rightarrow> Inl e
      | None \<Rightarrow>
          (case retrieveEntry s key of
             Inl e \<Rightarrow> Inl e
           | Inr r \<Rightarrow>
               Inr \<lparr>entry = entry r, matchingEntry = matchingEntry r, siblings = siblings r,
                    proofRoot = root s,
                    membership = (case at (entry r) 1 of None \<Rightarrow> False | Some v \<Rightarrow> truthy v)\<rparr>))"

text \<open>
  \<open>verifyProof\<close>.  \<open>keyToPath(undefined)\<close>, for an entry array without a first
  element, throws a TypeError in \<open>hexToBin\<close>.
\<close>

definition verifyProof :: "hashFunction \<Rightarrow> smt \<Rightarrow> merkleProof \<Rightarrow> error + bool" where
  "verifyProof hash s p =
     (case matchingEntry p of
        None \<Rightarrow>
          (case at (entry p) 0 of
             None \<Rightarrow> Inl TypeError
           | Some k \<Rightarrow>
               let path = keyToPath k;
                   node = (if at (entry p) 1 \<noteq> None then hash (entry p) else zeroNode s);
                   rt = calculateRoot hash node path (siblings p)
               in Inr (rt = proofRoot p))
      | Some me \<Rightarrow>
          (case at me 0 of
             None \<Rightarrow> Inl TypeError
           | Some mk \<Rightarrow>
               let matchingPath = keyToPath mk;
                   node = hash me;
                   rt = calculateRoot hash node matchingPath (siblings p)
               in
                 if rt = proofRoot p then
                   (case at (entry p) 0 of
                      None \<Rightarrow> Inl TypeError
                    | Some k \<Rightarrow>
                        let path = keyToPath k;
                            firstMatchingBits = getFirstCommonElements path matchingPath
                        in Inr (length (siblings p) \<le> length firstMatchingBits))
                 else Inr False))"

section \<open>Specification-level notions\<close>

text \<open>The value of a binary string, most significant digit first.\<close>

definition bv :: "string \<Rightarrow> nat" where
  "bv s = foldl (\<lambda>a c. 2 * a + (if c = CHR ''1'' then 1 else 0)) 0 s"

definition binstr :: "string \<Rightarrow> bool" where
  "binstr s = (set s \<subseteq> {CHR ''0'', CHR ''1''})"

text \<open>The unsigned integer a key denotes.\<close>

definition keyNumber :: "val \<Rightarrow> nat" where
  "keyNumber key =
     (case key of
        Big k \<Rightarrow> nat k
      | Str s \<Rightarrow> foldl (\<lambda>a c. 16 * a + the (hexDigit c)) 0 s)"

text \<open>
  A key of the active representation family: one to 64 hexadecimal digits, or a big
  integer that is an unsigned integer below \<open>2^256\<close>.
\<close>

definition validKey :: "bool \<Rightarrow> val \<Rightarrow> bool" where
  "validKey bigNums key =
     (if bigNums then (case key of Big k \<Rightarrow> 0 \<le> k \<and> k < 2 ^ 256 | Str x \<Rightarrow> False)
      else checkHex key)"

text \<open>The number of leading positions at which two paths hold the same bit.\<close>

definition sharedLeadingBits :: "jsnum list \<Rightarrow> jsnum list \<Rightarrow> nat" where
  "sharedLeadingBits p q = length (takeWhile (\<lambda>(a, b). strictEq a b) (zip p q))"

text \<open>
  A hash function for the examples: an injective encoding of the hashed array as a
  positive big integer.
\<close>

definition encodeVal :: "val \<Rightarrow> nat" where
  "encodeVal v =
     (case v of
        Big k \<Rightarrow> 2 * int_encode k
      | Str s \<Rightarrow> 2 * list_encode (map of_char s) + 1)"

definition exampleHash :: hashFunction where
  "exampleHash xs = Big (int (list_encode (map encodeVal xs)) + 1)"

text \<open>
  A hash function for the examples with hexadecimal strings: the digit 1 followed by
  zeros, as many as the code of the hashed array; the array that the constructor
  hashes yields the string \<open>"1"\<close>.
\<close>

definition exampleHexHash :: "val list \<Rightarrow> val" where
  "exampleHexHash xs =
     (if xs = [Str ''1'', Str ''1''] then Str ''1''
      else Str (CHR ''1'' # replicate (Suc (list_encode (map encodeVal xs))) CHR ''0''))"

text \<open>
  The fold of the specification, in its words: walk the siblings from the deepest one
  down to index 0; at each step the node and the sibling are ordered by the direction
  of the path at that index (0: the node is the left child, 1: the node is the right
  child) and the pair is hashed to get the parent.
\<close>

definition specParent :: "(val list \<Rightarrow> val) \<Rightarrow> val \<Rightarrow> jsnum \<times> val \<Rightarrow> val" where
  "specParent H node step =
     (case step of (direction, sibling) \<Rightarrow>
        if direction = N1 then H [sibling, node] else H [node, sibling])"

definition specFold :: "(val list \<Rightarrow> val) \<Rightarrow> val \<Rightarrow> jsnum list \<Rightarrow> val list \<Rightarrow> val" where
  "specFold H start path sibs = foldl (specParent H) start (rev (zip path sibs))"

section \<open>The tree behind the node store\<close>

text \<open>
  The node store is content addressed: a node identifier is the hash of the node's
  content.  The tree it represents is made explicit as a datatype, with the
  identifier \<open>th\<close> of a tree (the zero node \<open>z\<close> for the empty tree) and the store
  content \<open>cn\<close> of a non-empty tree.
\<close>

datatype tree = Empty | Leaf val val | Node tree tree

fun th :: "hashFunction \<Rightarrow> val \<Rightarrow> val \<Rightarrow> tree \<Rightarrow> val" where
  "th H z mk Empty = z"
| "th H z mk (Leaf k v) = H [k, v, mk]"
| "th H z mk (Node l r) = H [th H z mk l, th H z mk r]"

fun cn :: "hashFunction \<Rightarrow> val \<Rightarrow> val \<Rightarrow> tree \<Rightarrow> childNodes" where
  "cn H z mk Empty = Pair z z"
| "cn H z mk (Leaf k v) = Triple k v mk"
| "cn H z mk (Node l r) = Pair (th H z mk l) (th H z mk r)"

fun isNode :: "tree \<Rightarrow> bool" where
  "isNode (Node l r) = True"
| "isNode t = False"

fun keys :: "tree \<Rightarrow> val set" where
  "keys Empty = {}"
| "keys (Leaf k v) = {k}"
| "keys (Node l r) = keys l \<union> keys r"

fun entries :: "tree \<Rightarrow> (val \<times> val) set" where
  "entries Empty = {}"
| "entries (Leaf k v) = {(k, v)}"
| "entries (Node l r) = entries l \<union> entries r"

text \<open>The non-empty subtrees of a tree: the nodes the store has to hold.\<close>

fun nodesOf :: "tree \<Rightarrow> tree set" where
  "nodesOf Empty = {}"
| "nodesOf (Leaf k v) = {Leaf k v}"
| "nodesOf (Node l r) = insert (Node l r) (nodesOf l \<union> nodesOf r)"

text \<open>A path of 256 binary directions.\<close>

definition validPath :: "jsnum list \<Rightarrow> bool" where
  "validPath p = (length p = 256 \<and> set p \<subseteq> {N0, N1})"

text \<open>The direction a path takes at a depth, and the opposite one.\<close>

definition dir :: "jsnum list \<Rightarrow> nat \<Rightarrow> jsnum" where
  "dir p d = (if pathTruthy p d then N1 else N0)"

definition opp :: "jsnum list \<Rightarrow> nat \<Rightarrow> jsnum" where
  "opp p d = (if pathTruthy p d then N0 else N1)"

text \<open>An internal node never stands for fewer than two entries.\<close>

definition plural :: "tree \<Rightarrow> tree \<Rightarrow> bool" where
  "plural l r = ((l = Empty \<longrightarrow> isNode r) \<and> (r = Empty \<longrightarrow> isNode l))"

text \<open>
  Well-formed trees at depth \<open>d\<close>: an internal node at depth \<open>d\<close> splits its keys by
  bit \<open>d\<close> of their paths, and a subtree with a single entry is that leaf alone
  (sparse compression).
\<close>

fun wf :: "nat \<Rightarrow> tree \<Rightarrow> bool" where
  "wf d Empty = True"
| "wf d (Leaf k v) = validPath (keyToPath k)"
| "wf d (Node l r) =
     (d < 256 \<and> wf (Suc d) l \<and> wf (Suc d) r \<and>
      (\<forall>k\<in>keys l. keyToPath k ! d = N0) \<and> (\<forall>k\<in>keys r. keyToPath k ! d = N1) \<and>
      plural l r)"

text \<open>Descending along a path: the subtrees not taken, and the subtree reached.\<close>

fun sides :: "jsnum list \<Rightarrow> nat \<Rightarrow> tree \<Rightarrow> tree list" where
  "sides p d (Node l r) =
     (if pathTruthy p d then l # sides p (Suc d) r else r # sides p (Suc d) l)"
| "sides p d t = []"

fun focus :: "jsnum list \<Rightarrow> nat \<Rightarrow> tree \<Rightarrow> tree" where
  "focus p d (Node l r) = (if pathTruthy p d then focus p (Suc d) r else focus p (Suc d) l)"
| "focus p d t = t"

text \<open>Rebuilding a tree from the subtrees not taken and a new subtree at the bottom.\<close>

fun plug :: "jsnum list \<Rightarrow> nat \<Rightarrow> tree list \<Rightarrow> tree \<Rightarrow> tree" where
  "plug p d [] u = u"
| "plug p d (x # ss) u =
     (if pathTruthy p d then Node x (plug p (Suc d) ss u) else Node (plug p (Suc d) ss u) x)"

text \<open>The internal nodes on the path of a rebuilt tree.\<close>

fun onpath :: "jsnum list \<Rightarrow> nat \<Rightarrow> tree list \<Rightarrow> tree \<Rightarrow> tree set" where
  "onpath p d [] u = {}"
| "onpath p d (x # ss) u = insert (plug p d (x # ss) u) (onpath p (Suc d) ss u)"

text \<open>
  The subtrees not taken along a path, as a context: each is well formed one level
  down and holds keys of the opposite direction, and the keys of the later ones follow
  the path at this level.
\<close>

fun wfctx :: "jsnum list \<Rightarrow> nat \<Rightarrow> tree list \<Rightarrow> bool" where
  "wfctx p d [] = True"
| "wfctx p d (x # ss) =
     (d < 256 \<and> wf (Suc d) x \<and> (\<forall>k\<in>keys x. keyToPath k ! d = opp p d) \<and>
      (\<forall>y\<in>set ss. \<forall>k\<in>keys y. keyToPath k ! d = dir p d) \<and> wfctx p (Suc d) ss)"

text \<open>
  The assumptions on the hash function: no collisions, and no output that reads as
  the number zero (in particular never the zero node).
\<close>

definition hashOk :: "hashFunction \<Rightarrow> bool" where
  "hashOk H = (inj H \<and> (\<forall>xs. \<not> isZeroNumber (H xs)))"

text \<open>Every stored node is stored under the hash of its content.\<close>

definition consistent :: "hashFunction \<Rightarrow> (val \<rightharpoonup> childNodes) \<Rightarrow> bool" where
  "consistent H m = (\<forall>h c. m h = Some c \<longrightarrow> h = H (elems c))"

text \<open>The object \<open>s\<close> represents the tree \<open>t\<close>.\<close>

definition represents :: "hashFunction \<Rightarrow> smt \<Rightarrow> tree \<Rightarrow> bool" where
  "represents H s t =
     (wf 0 t \<and> root s = th H (zeroNode s) (entryMark s) t \<and> consistent H (nodes s) \<and>
      th H (zeroNode s) (entryMark s) ` nodesOf t \<subseteq> dom (nodes s))"

text \<open>What the entry locator answers when the descent ends at the subtree \<open>f\<close>.\<close>

definition response :: "val \<Rightarrow> val \<Rightarrow> tree \<Rightarrow> val list \<Rightarrow> entryResponse" where
  "response key mk f sb =
     (case f of
        Leaf k v \<Rightarrow>
          if k = key then \<lparr>entry = [k, v, mk], matchingEntry = None, siblings = sb\<rparr>
          else \<lparr>entry = [key], matchingEntry = Some [k, v, mk], siblings = sb\<rparr>
      | Empty \<Rightarrow> \<lparr>entry = [key], matchingEntry = None, siblings = sb\<rparr>
      | Node l r \<Rightarrow> \<lparr>entry = [key], matchingEntry = None, siblings = sb\<rparr>)"

section \<open>Reachable objects\<close>

text \<open>The object the constructor returns.\<close>

definition emptySMT :: "bool \<Rightarrow> smt" where
  "emptySMT bigNums =
     \<lparr>bigNumbers = bigNums, nodes = Map.empty, root = (if bigNums then Big 0 else Str ''0'')\<rparr>"

text \<open>
  The objects reachable from a new one by successful calls of \<open>add\<close>, \<open>update\<close> and
  \<open>delete\<close> with valid keys, together with the map from the keys added (and not
  deleted since) to their latest values.
\<close>

inductive reach :: "hashFunction \<Rightarrow> bool \<Rightarrow> smt \<Rightarrow> (val \<rightharpoonup> val) \<Rightarrow> bool"
  for H :: hashFunction and b :: bool where
  reach_new: "reach H b (emptySMT b) Map.empty"
| reach_add: "reach H b s M \<Longrightarrow> validKey b key \<Longrightarrow> add H s key v = Ok s'
     \<Longrightarrow> reach H b s' (M(key \<mapsto> v))"
| reach_update: "reach H b s M \<Longrightarrow> validKey b key \<Longrightarrow> update H s key v = Ok s'
     \<Longrightarrow> reach H b s' (M(key \<mapsto> v))"
| reach_delete: "reach H b s M \<Longrightarrow> validKey b key \<Longrightarrow> delete H s key = Ok s'
     \<Longrightarrow> reach H b s' (M(key := None))"

text \<open>Adding a list of entries, one after the other.\<close>

fun addAll :: "hashFunction \<Rightarrow> smt \<Rightarrow> (val \<times> val) list \<Rightarrow> outcome" where
  "addAll H s [] = Ok s"
| "addAll H s ((k, v) # kvs) =
     (case add H s k v of
        Ok s' \<Rightarrow> addAll H s' kvs
      | Throw e s' \<Rightarrow> Throw e s')"

text \<open>A value of the active representation family.\<close>

definition validValue :: "bool \<Rightarrow> val \<Rightarrow> bool" where
  "validValue bigNums v =
     (if bigNums then (case v of Big k \<Rightarrow> True | Str x \<Rightarrow> False) else checkHex v)"

section \<open>The path codec\<close>

lemma bv_Nil [simp]: "bv [] = 0"
  by (simp add: bv_def)

lemma bv_snoc [simp]: "bv (xs @ [c]) = 2 * bv xs + (if c = CHR ''1'' then 1 else 0)"
  by (simp add: bv_def)

lemma bv_append: "bv (xs @ ys) = bv xs * 2 ^ length ys + bv ys"
proof (induction ys rule: rev_induct)
  case Nil
  then show ?case by simp
next
  case (snoc y ys)
  have "bv (xs @ ys @ [y]) = bv ((xs @ ys) @ [y])" by simp
  also have "\<dots> = 2 * bv (xs @ ys) + (if y = CHR ''1'' then 1 else 0)"
    by (rule bv_snoc)
  finally show ?case using snoc by (simp add: algebra_simps)
qed

lemma binstr_simps [simp]:
  "binstr []" "binstr (xs @ ys) = (binstr xs \<and> binstr ys)"
  "binstr (c # cs) = ((c = CHR ''0'' \<or> c = CHR ''1'') \<and> binstr cs)"
  "binstr (replicate n (CHR ''0''))"
  by (auto simp: binstr_def)

lemma bv_replicate0 [simp]: "bv (replicate n (CHR ''0'')) = 0"
proof (induction n)
  case 0
  then show ?case by simp
next
  case (Suc n)
  have "replicate (Suc n) (CHR ''0'') = replicate n (CHR ''0'') @ [CHR ''0'']"
    by (simp add: replicate_append_same)
  then have "bv (replicate (Suc n) (CHR ''0'')) = 2 * bv (replicate n (CHR ''0''))"
    by (simp only: bv_snoc) simp
  with Suc show ?case by simp
qed

lemma toString2_props: "binstr (toString2 n) \<and> bv (toString2 n) = n"
proof (induction n rule: toString2.induct)
  case (1 n)
  show ?case
  proof (cases "n < 2")
    case True
    then have "n = 0 \<or> n = 1" by arith
    then show ?thesis
      by (subst (1 2) toString2.simps) (auto simp: bv_def)
  next
    case False
    with 1 have IH: "binstr (toString2 (n div 2))" "bv (toString2 (n div 2)) = n div 2"
      by simp_all
    have eq: "toString2 n
        = toString2 (n div 2) @ [if n mod 2 = 0 then CHR ''0'' else CHR ''1'']"
      using False by (subst toString2.simps) simp
    have ar: "2 * (n div 2) + (if n mod 2 = 0 then 0 else 1) = n"
      by presburger
    have "bv (toString2 n) = 2 * (n div 2) + (if n mod 2 = 0 then 0 else 1)"
      unfolding eq using IH by simp
    with ar have "bv (toString2 n) = n" by simp
    moreover have "binstr (toString2 n)"
      unfolding eq using IH by simp
    ultimately show ?thesis by simp
  qed
qed

lemma length_toString2: "n < 2 ^ k \<Longrightarrow> 0 < k \<Longrightarrow> length (toString2 n) \<le> k"
proof (induction n arbitrary: k rule: toString2.induct)
  case (1 n)
  show ?case
  proof (cases "n < 2")
    case True
    then show ?thesis using 1(3) by (subst toString2.simps) simp
  next
    case False
    then obtain j where k: "k = Suc j" using 1(3) by (cases k) auto
    with False 1(2) have j: "0 < j" by (cases j) auto
    from 1(2) k have "n div 2 < 2 ^ j" by auto
    with 1(1)[OF False this j] show ?thesis using False k
      by (subst toString2.simps) simp
  qed
qed

lemma length_toString2_pos: "0 < length (toString2 n)"
  by (subst toString2.simps) simp

lemma padStart_props:
  "length (padStart n s) = max n (length s)"
  "binstr (padStart n s) = binstr s"
  "bv (padStart n s) = bv s"
  by (auto simp: padStart_def bv_append)

lemma hexDigit_lt: "hexDigit c = Some d \<Longrightarrow> d < 16"
  by (auto simp: hexDigit_def Let_def split: if_splits)

lemma hexval_shift:
  "foldl (\<lambda>a c. 16 * a + the (hexDigit c)) a cs
     = a * 16 ^ length cs + foldl (\<lambda>a c. 16 * a + the (hexDigit c)) 0 cs"
proof -
  define f where "f = (\<lambda>(a::nat) c. 16 * a + the (hexDigit c))"
  have "foldl f a cs = a * 16 ^ length cs + foldl f 0 cs"
  proof (induction cs arbitrary: a)
    case Nil
    then show ?case by simp
  next
    case (Cons c cs)
    have "foldl f a (c # cs) = foldl f (16 * a + the (hexDigit c)) cs"
      by (simp add: f_def)
    also have "\<dots> = (16 * a + the (hexDigit c)) * 16 ^ length cs + foldl f 0 cs"
      by (rule Cons.IH)
    finally have 1: "foldl f a (c # cs)
        = a * 16 ^ length (c # cs) + (the (hexDigit c) * 16 ^ length cs + foldl f 0 cs)"
      by (simp add: algebra_simps)
    have "foldl f 0 (c # cs) = foldl f (the (hexDigit c)) cs"
      by (simp add: f_def)
    also have "\<dots> = the (hexDigit c) * 16 ^ length cs + foldl f 0 cs"
      by (rule Cons.IH)
    finally show ?case using 1 by simp
  qed
  then show ?thesis by (simp add: f_def)
qed

lemma hexToBin_loop_props:
  "list_all (\<lambda>c. hexDigit c \<noteq> None) cs \<Longrightarrow> binstr bin \<Longrightarrow>
   binstr (hexToBin_loop cs bin) \<and>
   length (hexToBin_loop cs bin) = length bin + 4 * length cs \<and>
   bv (hexToBin_loop cs bin)
     = bv bin * 16 ^ length cs + foldl (\<lambda>a c. 16 * a + the (hexDigit c)) 0 cs"
proof (induction cs arbitrary: bin)
  case Nil
  then show ?case by simp
next
  case (Cons c cs)
  then obtain d where d: "hexDigit c = Some d" by auto
  then have d16: "d < 16" by (rule hexDigit_lt)
  let ?p = "padStart 4 (toString2 d)"
  have len: "length ?p = 4"
    using length_toString2 [of d 4] d16 by (simp add: padStart_props)
  have bin': "binstr (bin @ ?p)"
    using Cons.prems toString2_props [of d] by (simp add: padStart_props)
  have bvp: "bv (bin @ ?p) = bv bin * 16 + d"
    using toString2_props [of d] len by (simp add: bv_append padStart_props)
  from Cons.prems have "list_all (\<lambda>c. hexDigit c \<noteq> None) cs" by simp
  from Cons.IH [OF this bin'] show ?case
    using d len bvp hexval_shift [of d cs] by (simp add: algebra_simps)
qed

lemma hexToBin_props:
  assumes "checkHex (Str s)"
  shows "binstr (hexToBin s)" "length (hexToBin s) \<le> 256" "bv (hexToBin s) = keyNumber (Str s)"
proof -
  from assms obtain c cs where s: "s = c # cs" by (cases s) auto
  with assms have cs: "list_all (\<lambda>c. hexDigit c \<noteq> None) cs" and len: "length cs \<le> 63"
    by auto
  from assms s obtain d where d: "hexDigit c = Some d" by auto
  then have d16: "d < 16" by (rule hexDigit_lt)
  have b: "binstr (toString2 d)" and v: "bv (toString2 d) = d"
    using toString2_props [of d] by simp_all
  have l: "length (toString2 d) \<le> 4" using length_toString2 [of d 4] d16 by simp
  note P = hexToBin_loop_props [OF cs b]
  show "binstr (hexToBin s)" using P s d by (simp add: hexToBin_def)
  show "length (hexToBin s) \<le> 256" using P s d l len by (simp add: hexToBin_def)
  show "bv (hexToBin s) = keyNumber (Str s)"
    using P s d v hexval_shift [of d cs] by (simp add: hexToBin_def keyNumber_def)
qed

lemma bv_less: "bv xs < 2 ^ length xs"
  by (induction xs rule: rev_induct) auto

lemma rev_bits:
  "binstr xs \<Longrightarrow>
   map toNumber (rev xs) = map (\<lambda>i. if bit (bv xs) i then N1 else N0) [0..<length xs]"
proof (induction xs rule: rev_induct)
  case Nil
  then show ?case by simp
next
  case (snoc c xs)
  then have c: "c = CHR ''0'' \<or> c = CHR ''1''" and xs: "binstr xs" by simp_all
  let ?b = "if c = CHR ''1'' then 1 else (0::nat)"
  have hd: "toNumber c = (if bit (2 * bv xs + ?b) 0 then N1 else N0)"
    using c by (auto simp: toNumber_def bit_0)
  have tl: "bit (2 * bv xs + ?b) (Suc i) = bit (bv xs) i" for i
    by (simp add: bit_Suc)
  have "[0..<length (xs @ [c])] = 0 # map Suc [0..<length xs]"
    by (simp add: upt_conv_Cons map_Suc_upt del: upt_Suc)
  then show ?case
    using snoc.IH [OF xs] hd tl by (simp add: comp_def del: upt_Suc)
qed

lemma path_of_bits:
  assumes "binstr bs" "length bs \<le> 256"
  shows "map toNumber (rev (padStart 256 bs))
           = map (\<lambda>i. if bit (bv bs) i then N1 else N0) [0..<256]"
proof -
  have "length (padStart 256 bs) = 256" using assms by (simp add: padStart_props)
  with rev_bits [of "padStart 256 bs"] assms show ?thesis
    by (simp add: padStart_props)
qed

text \<open>
  C8.  For every key valid in the active representation family (one to 64 hexadecimal
  digits, or a big integer that is an unsigned integer below \<open>2^256\<close>),
  \<open>keyToPath\<close> returns exactly 256 binary directions, and the direction at index
  \<open>i\<close> is the binary digit of weight \<open>2^i\<close> of the key: the binary form of the key,
  zero-padded on the most significant side to 256 bits and reversed, so that index 0
  is the least significant bit.
\<close>

theorem keyToPath_bits:
  assumes "validKey bigNums key"
  shows "keyToPath key = map (\<lambda>i. if bit (keyNumber key) i then N1 else N0) [0..<256]"
proof (cases key)
  case (Str s)
  with assms have "checkHex (Str s)" by (auto simp: validKey_def split: if_splits)
  from hexToBin_props [OF this] path_of_bits [of "hexToBin s"] Str show ?thesis
    by (simp add: keyToPath_def)
next
  case (Big k)
  with assms have k: "0 \<le> k" "k < 2 ^ 256" by (auto simp: validKey_def split: if_splits)
  then have "nat k < 2 ^ 256" by (simp add: nat_less_iff)
  then have "length (toString2 (nat k)) \<le> 256" by (rule length_toString2) simp
  with toString2_props [of "nat k"] path_of_bits [of "toString2 (nat k)"] Big k show ?thesis
    by (simp add: keyToPath_def keyNumber_def)
qed

theorem keyToPath_bits_witness:
  "keyToPath (Big 5) = map (\<lambda>i. if bit (keyNumber (Big 5)) i then N1 else N0) [0..<256] \<and>
   keyToPath (Str ''a1'')
     = map (\<lambda>i. if bit (keyNumber (Str ''a1'')) i then N1 else N0) [0..<256]"
  using keyToPath_bits [of True "Big 5"] keyToPath_bits [of False "Str ''a1''"]
  by (simp add: validKey_def hexDigit_def)

section \<open>Proof verification\<close>

lemma getFirstCommonElements_loop_take:
  assumes "m = (if length a1 < length a2 then a1 else a2)" "i \<le> length m"
    "\<forall>j<i. strictEq (a1 ! j) (a2 ! j)"
  shows "length (getFirstCommonElements_loop a1 a2 m i) = sharedLeadingBits a1 a2"
  using assms
proof (induction a1 a2 m i rule: getFirstCommonElements_loop.induct)
  case (1 a1 a2 m i)
  let ?P = "\<lambda>(a, b). strictEq a b"
  have lz: "length (zip a1 a2) = length m" using "1.prems"(1) by auto
  show ?case
  proof (cases "i < length m")
    case False
    with "1.prems" have i: "i = length m" by simp
    have "\<forall>x\<in>set (zip a1 a2). ?P x"
      using "1.prems"(3) i lz by (auto simp: set_zip)
    then have tw: "takeWhile ?P (zip a1 a2) = zip a1 a2"
      by (simp add: takeWhile_eq_all_conv)
    have "sharedLeadingBits a1 a2 = length m"
      unfolding sharedLeadingBits_def tw using lz by simp
    then show ?thesis
      using False by (subst getFirstCommonElements_loop.simps) simp
  next
    case True
    show ?thesis
    proof (cases "strictEq (a1 ! i) (a2 ! i)")
      case False
      have tw: "takeWhile ?P (zip a1 a2) = take i (zip a1 a2)"
        by (rule takeWhile_eq_take_P_nth) (use "1.prems"(3) False True lz in auto)
      have "sharedLeadingBits a1 a2 = i"
        unfolding sharedLeadingBits_def tw using True lz by simp
      then show ?thesis
        using False True by (subst getFirstCommonElements_loop.simps) simp
    next
      case eq: True
      have "\<forall>j<i + 1. strictEq (a1 ! j) (a2 ! j)"
        using "1.prems"(3) eq by (auto simp: less_Suc_eq)
      from "1.IH" [OF True _ "1.prems"(1) _ this] True eq show ?thesis
        by (subst getFirstCommonElements_loop.simps) simp
    qed
  qed
qed

lemma length_getFirstCommonElements:
  "length (getFirstCommonElements p q) = sharedLeadingBits p q"
  unfolding getFirstCommonElements_def Let_def
  by (rule getFirstCommonElements_loop_take) simp_all

text \<open>The loop of \<open>calculateRoot\<close> computes the fold of the specification.\<close>

lemma calculateRoot_loop_specFold:
  "n \<le> length sibs \<Longrightarrow> n \<le> length path \<Longrightarrow>
   calculateRoot_loop H node path sibs n
     = foldl (specParent H) node (rev (take n (zip path sibs)))"
proof (induction n arbitrary: node)
  case 0
  then show ?case by simp
next
  case (Suc n)
  from Suc.prems have n: "n < length sibs" "n < length path" by simp_all
  then have nz: "n < length (zip path sibs)" by simp
  have step: "H (elems (parentOf path n node sibs)) = specParent H node (zip path sibs ! n)"
    using n by (simp add: parentOf_def specParent_def pathTruthy_def at_def)
  have "take (Suc n) (zip path sibs) = take n (zip path sibs) @ [zip path sibs ! n]"
    by (rule take_Suc_conv_app_nth [OF nz])
  then have "foldl (specParent H) node (rev (take (Suc n) (zip path sibs)))
      = foldl (specParent H) (specParent H node (zip path sibs ! n))
          (rev (take n (zip path sibs)))" by simp
  moreover have "calculateRoot_loop H node path sibs (Suc n)
      = calculateRoot_loop H (specParent H node (zip path sibs ! n)) path sibs n"
    by (simp add: step)
  moreover have "calculateRoot_loop H (specParent H node (zip path sibs ! n)) path sibs n
      = foldl (specParent H) (specParent H node (zip path sibs ! n))
          (rev (take n (zip path sibs)))"
    using Suc.prems by (intro Suc.IH) simp_all
  ultimately show ?case by simp
qed

lemma calculateRoot_specFold:
  "length sibs \<le> length path \<Longrightarrow> calculateRoot H node path sibs = specFold H node path sibs"
  unfolding calculateRoot_def specFold_def
  by (simp add: calculateRoot_loop_specFold)

lemma sharedLeadingBits_le: "sharedLeadingBits p q \<le> length q"
proof -
  have "length (takeWhile (\<lambda>(a, b). strictEq a b) (zip p q)) \<le> length (zip p q)"
    by (rule length_takeWhile_le)
  then show ?thesis by (simp add: sharedLeadingBits_def)
qed

text \<open>
  C10.  \<open>verifyProof\<close> never reads the membership field of the proof: replacing it by
  any boolean leaves the result unchanged.
\<close>

theorem verifyProof_ignores_membership:
  "verifyProof hash s (p\<lparr>membership := b\<rparr>) = verifyProof hash s p"
  by (simp add: verifyProof_def cong: option.case_cong if_cong)

section \<open>Failed calls\<close>

lemma retrieveEntry_loop_matchingEntry:
  "retrieveEntry_loop s key path i node sibs = Inr r \<Longrightarrow> matchingEntry r = Some me
     \<Longrightarrow> at me 0 \<noteq> None"
proof (induction s key path i node sibs rule: retrieveEntry_loop.induct)
  case (1 s key path i node sibs)
  from "1.prems" show ?case
    apply (subst (asm) retrieveEntry_loop.simps)
    apply (auto split: if_splits option.splits jsnum.splits simp: at_def dest: "1.IH")
    subgoal for cn by (cases cn) auto
    done
qed

lemma push_error: "push xs x = Inl e \<Longrightarrow> e = RangeError"
  by (simp add: push_def split: if_splits)

lemma extendSiblings_error: "extendSiblings q p z i sb = Inl e \<Longrightarrow> e = RangeError"
proof (induction q p z i sb rule: extendSiblings.induct)
  case (1 q p z i sb)
  from "1.prems" show ?case
    by (subst (asm) extendSiblings.simps)
       (auto split: if_splits sum.splits dest: push_error "1.IH")
qed

text \<open>
  The calls that throw one of the errors of the class itself (a parameter of the wrong
  representation, an already existing key for \<open>add\<close>, an absent key for \<open>update\<close> and
  \<open>delete\<close>) leave the object as it was: the throw comes before the first write.
\<close>

lemma named_failure_leaves_tree_unchanged:
  "(add hash s key value = Throw e s' \<and> e \<noteq> RangeError \<longrightarrow> s' = s) \<and>
   (update hash s key value = Throw e s' \<longrightarrow> s' = s) \<and>
   (delete hash s key = Throw e s' \<longrightarrow> s' = s)"
proof (intro conjI impI)
  assume "add hash s key value = Throw e s' \<and> e \<noteq> RangeError"
  then show "s' = s"
    by (auto simp: add_def add_finish_def retrieveEntry_def Let_def
        split: option.splits sum.splits if_splits prod.splits
        dest: retrieveEntry_loop_matchingEntry push_error extendSiblings_error)
next
  assume "update hash s key value = Throw e s'"
  then show "s' = s"
    by (auto simp: update_def Let_def split: option.splits sum.splits if_splits prod.splits)
next
  assume "delete hash s key = Throw e s'"
  then show "s' = s"
    by (auto simp: delete_def Let_def split: option.splits sum.splits if_splits prod.splits)
qed

section \<open>Trees, paths and contexts\<close>

lemma plug_sides_focus [simp]: "plug p d (sides p d t) (focus p d t) = t"
  by (induction t arbitrary: d) auto

lemma plug_append: "plug p d (xs @ ys) u = plug p d xs (plug p (d + length xs) ys u)"
  by (induction xs arbitrary: d) auto

lemma onpath_append:
  "onpath p d (xs @ ys) u
     = onpath p d xs (plug p (d + length xs) ys u) \<union> onpath p (d + length xs) ys u"
  by (induction xs arbitrary: d) (auto simp: plug_append)

lemma plug_cong:
  "(\<And>j. j < length ss \<Longrightarrow> pathTruthy p (d + j) = pathTruthy q (d + j))
     \<Longrightarrow> plug p d ss u = plug q d ss u"
proof (induction ss arbitrary: d)
  case Nil
  then show ?case by simp
next
  case (Cons x ss)
  have "pathTruthy p d = pathTruthy q d" using Cons.prems [of 0] by simp
  moreover have "plug p (Suc d) ss u = plug q (Suc d) ss u"
    by (rule Cons.IH) (use Cons.prems [of "Suc j" for j] in auto)
  ultimately show ?case by simp
qed

lemma isNode_plug: "ss \<noteq> [] \<Longrightarrow> isNode (plug p d ss u)"
  by (cases ss) auto

lemma focus_not_Node [simp]: "\<not> isNode (focus p d t)"
  by (induction t arbitrary: d) auto

lemma keys_plug: "keys (plug p d ss u) = keys u \<union> (\<Union>x\<in>set ss. keys x)"
  by (induction ss arbitrary: d) auto

lemma entries_plug: "entries (plug p d ss u) = entries u \<union> (\<Union>x\<in>set ss. entries x)"
  by (induction ss arbitrary: d) auto

lemma nodesOf_plug:
  "nodesOf (plug p d ss u) = onpath p d ss u \<union> nodesOf u \<union> (\<Union>x\<in>set ss. nodesOf x)"
  by (induction ss arbitrary: d) auto

lemma keys_entries: "keys t = fst ` entries t"
  by (induction t) (auto simp: image_Un)

lemma dir_opp [simp]: "dir p d \<noteq> opp p d" "opp p d \<noteq> dir p d"
  by (auto simp: dir_def opp_def)

lemma dir_valid: "validPath p \<Longrightarrow> d < 256 \<Longrightarrow> dir p d = p ! d"
proof -
  assume "validPath p" "d < 256"
  then have "p ! d \<in> set p" and len: "d < length p" by (auto simp: validPath_def)
  with \<open>validPath p\<close> have "p ! d = N0 \<or> p ! d = N1"
    unfolding validPath_def by blast
  with len show ?thesis by (auto simp: dir_def pathTruthy_def at_def)
qed

lemma plural_simps [simp]:
  "plural (Leaf k v) (Leaf k' v')" "plural (Node a b) x" "plural x (Node a b)"
  "plural x (Leaf k v) = (x \<noteq> Empty)" "plural (Leaf k v) x = (x \<noteq> Empty)"
  "plural x Empty = isNode x" "plural Empty x = isNode x"
  by (cases x; simp add: plural_def)+

lemma wf_keys_nonempty: "wf d t \<Longrightarrow> t \<noteq> Empty \<Longrightarrow> keys t \<noteq> {}"
proof (induction t arbitrary: d)
  case (Node l r)
  from Node.prems have "l \<noteq> Empty \<or> r \<noteq> Empty" by (auto simp: plural_def)
  moreover from Node.prems have "wf (Suc d) l" "wf (Suc d) r" by simp_all
  ultimately have "keys l \<noteq> {} \<or> keys r \<noteq> {}"
    using Node.IH by blast
  then show ?case by auto
qed auto

lemma nodesOf_keys: "u \<in> nodesOf t \<Longrightarrow> keys u \<subseteq> keys t"
  by (induction t) auto

lemma nodesOf_entries: "u \<in> nodesOf t \<Longrightarrow> entries u \<subseteq> entries t"
  by (induction t) auto

lemma nodesOf_wf: "u \<in> nodesOf t \<Longrightarrow> wf d t \<Longrightarrow> \<exists>e. wf e u"
  by (induction t arbitrary: d) auto

lemma nodesOf_nonempty [simp]: "Empty \<notin> nodesOf t"
  by (induction t) auto

lemma nodesOf_size: "u \<in> nodesOf t \<Longrightarrow> size u \<le> size t"
  by (induction t) auto

lemma nodesOf_self: "t \<noteq> Empty \<Longrightarrow> t \<in> nodesOf t"
  by (cases t) auto

lemma nodesOf_trans: "u \<in> nodesOf t \<Longrightarrow> t \<in> nodesOf w \<Longrightarrow> u \<in> nodesOf w"
  by (induction w) auto

lemma nodesOf_keys_nonempty: "u \<in> nodesOf t \<Longrightarrow> wf d t \<Longrightarrow> keys u \<noteq> {}"
  using nodesOf_wf wf_keys_nonempty nodesOf_nonempty by metis

lemma wf_children_disjoint:
  assumes "wf d (Node l r)" "u \<in> nodesOf l" "u' \<in> nodesOf r"
  shows "u \<noteq> u'"
proof
  assume eq: "u = u'"
  from assms have l: "wf (Suc d) l" and r: "wf (Suc d) r" by simp_all
  from nodesOf_keys_nonempty [OF assms(2) l] obtain k where k: "k \<in> keys u" by auto
  with nodesOf_keys [OF assms(2)] have "keyToPath k ! d = N0" using assms(1) by auto
  moreover from k eq nodesOf_keys [OF assms(3)] have "keyToPath k ! d = N1"
    using assms(1) by auto
  ultimately show False by simp
qed

lemma sides_focus_nodesOf:
  "(\<Union>x\<in>set (sides p d t). nodesOf x) \<union> nodesOf (focus p d t) \<subseteq> nodesOf t"
  using nodesOf_plug [of p d "sides p d t" "focus p d t"] by auto

lemma onpath_sides_nodesOf: "onpath p d (sides p d t) (focus p d t) \<subseteq> nodesOf t"
  using nodesOf_plug [of p d "sides p d t" "focus p d t"] by auto

text \<open>The nodes on the path are none of the nodes hanging off it.\<close>

lemma onpath_separate:
  assumes "wf d t"
    and "u \<in> (\<Union>x\<in>set (sides p d t). nodesOf x) \<union> nodesOf (focus p d t)"
  shows "u \<notin> onpath p d (sides p d t) (focus p d t)"
  using assms
proof (induction t arbitrary: d)
  case (Node l r)
  let ?a = "if pathTruthy p d then r else l" and ?b = "if pathTruthy p d then l else r"
  have wa: "wf (Suc d) ?a" using Node.prems(1) by simp
  have sub: "(\<Union>x\<in>set (sides p (Suc d) ?a). nodesOf x) \<union> nodesOf (focus p (Suc d) ?a)
      \<subseteq> nodesOf ?a"
    by (rule sides_focus_nodesOf)
  have opa: "onpath p (Suc d) (sides p (Suc d) ?a) (focus p (Suc d) ?a) \<subseteq> nodesOf ?a"
    by (rule onpath_sides_nodesOf)
  from Node.prems(2) have u: "u \<in> nodesOf ?b \<or>
      u \<in> (\<Union>x\<in>set (sides p (Suc d) ?a). nodesOf x) \<union> nodesOf (focus p (Suc d) ?a)"
    by (auto split: if_splits)
  then have "u \<in> nodesOf l \<union> nodesOf r" using sub by (auto split: if_splits)
  then have "size u < size (Node l r)" by (auto dest: nodesOf_size)
  then have ne: "u \<noteq> Node l r" by auto
  have "u \<notin> onpath p (Suc d) (sides p (Suc d) ?a) (focus p (Suc d) ?a)"
  proof (cases "u \<in> nodesOf ?b")
    case True
    show ?thesis
    proof
      assume "u \<in> onpath p (Suc d) (sides p (Suc d) ?a) (focus p (Suc d) ?a)"
      with opa have "u \<in> nodesOf ?a" by auto
      with True wf_children_disjoint [OF Node.prems(1)] show False
        by (auto split: if_splits)
    qed
  next
    case False
    with u have "u \<in> (\<Union>x\<in>set (sides p (Suc d) ?a). nodesOf x) \<union> nodesOf (focus p (Suc d) ?a)"
      by simp
    then show ?thesis
      using Node.IH wa by (auto split: if_splits)
  qed
  with ne show ?case by (auto split: if_splits)
qed auto

text \<open>The context of a well-formed tree along a path.\<close>

lemma keys_sides_focus:
  "(\<Union>x\<in>set (sides p d t). keys x) \<union> keys (focus p d t) = keys t"
  using keys_plug [of p d "sides p d t" "focus p d t"] by auto

lemma wf_context_all:
  "wf d t \<Longrightarrow> d \<le> 256 \<Longrightarrow>
   wfctx p d (sides p d t) \<and>
   wf (d + length (sides p d t)) (focus p d t) \<and>
   (\<forall>k\<in>keys (focus p d t). \<forall>j<length (sides p d t). keyToPath k ! (d + j) = dir p (d + j)) \<and>
   (sides p d t \<noteq> [] \<longrightarrow> plural (last (sides p d t)) (focus p d t)) \<and>
   d + length (sides p d t) \<le> 256"
proof (induction t arbitrary: d)
  case Empty
  then show ?case by simp
next
  case (Leaf k v)
  then show ?case by simp
next
  case (Node l r)
  define a where "a = (if pathTruthy p d then r else l)"
  define b where "b = (if pathTruthy p d then l else r)"
  have sd: "sides p d (Node l r) = b # sides p (Suc d) a"
    and fd: "focus p d (Node l r) = focus p (Suc d) a"
    by (simp_all add: a_def b_def)
  from Node.prems have d: "d < 256" and wa: "wf (Suc d) a" and wb: "wf (Suc d) b"
    and pl: "plural a b"
    by (auto simp: a_def b_def plural_def)
  have ka: "\<forall>k\<in>keys a. keyToPath k ! d = dir p d"
    using Node.prems(1) by (auto simp: a_def dir_def)
  have kb: "\<forall>k\<in>keys b. keyToPath k ! d = opp p d"
    using Node.prems(1) by (auto simp: b_def opp_def)
  from d have sd256: "Suc d \<le> 256" by simp
  have IH: "wfctx p (Suc d) (sides p (Suc d) a) \<and>
      wf (Suc d + length (sides p (Suc d) a)) (focus p (Suc d) a) \<and>
      (\<forall>k\<in>keys (focus p (Suc d) a). \<forall>j<length (sides p (Suc d) a).
          keyToPath k ! (Suc d + j) = dir p (Suc d + j)) \<and>
      (sides p (Suc d) a \<noteq> [] \<longrightarrow> plural (last (sides p (Suc d) a)) (focus p (Suc d) a)) \<and>
      Suc d + length (sides p (Suc d) a) \<le> 256"
    using Node.IH(1) [OF _ sd256, of ] Node.IH(2) [OF _ sd256] wa
    by (cases "pathTruthy p d") (simp_all add: a_def)
  have ksub: "(\<Union>x\<in>set (sides p (Suc d) a). keys x) \<union> keys (focus p (Suc d) a) = keys a"
    by (rule keys_sides_focus)
  have 1: "wfctx p d (b # sides p (Suc d) a)"
  proof -
    have "\<forall>y\<in>set (sides p (Suc d) a). \<forall>k\<in>keys y. keyToPath k ! d = dir p d"
      using ka ksub by blast
    with IH wb kb d show ?thesis by simp
  qed
  have 2: "wf (d + length (b # sides p (Suc d) a)) (focus p (Suc d) a)"
    using IH by simp
  have 3: "\<forall>k\<in>keys (focus p (Suc d) a). \<forall>j<length (b # sides p (Suc d) a).
      keyToPath k ! (d + j) = dir p (d + j)"
  proof (intro ballI allI impI)
    fix k j
    assume k: "k \<in> keys (focus p (Suc d) a)" and j: "j < length (b # sides p (Suc d) a)"
    show "keyToPath k ! (d + j) = dir p (d + j)"
    proof (cases j)
      case 0
      with k ksub ka show ?thesis by auto
    next
      case (Suc i)
      with j have "i < length (sides p (Suc d) a)" by simp
      with IH k have "keyToPath k ! (Suc d + i) = dir p (Suc d + i)" by blast
      with Suc show ?thesis by simp
    qed
  qed
  have 4: "plural (last (b # sides p (Suc d) a)) (focus p (Suc d) a)"
  proof (cases "sides p (Suc d) a = []")
    case False
    with IH show ?thesis by simp
  next
    case True
    then have "\<not> isNode a" by (cases a) (auto split: if_splits)
    then have "focus p (Suc d) a = a" by (cases a) auto
    with True pl show ?thesis by (auto simp: plural_def)
  qed
  have 5: "d + length (b # sides p (Suc d) a) \<le> 256"
    using IH by simp
  from 1 2 3 4 5 show ?case unfolding sd fd by simp
qed

lemma wf_context:
  assumes "wf d t" and "d \<le> 256"
  shows "wfctx p d (sides p d t)"
    and "wf (d + length (sides p d t)) (focus p d t)"
    and "\<forall>k\<in>keys (focus p d t). \<forall>j<length (sides p d t). keyToPath k ! (d + j) = dir p (d + j)"
    and "sides p d t \<noteq> [] \<longrightarrow> plural (last (sides p d t)) (focus p d t)"
    and "d + length (sides p d t) \<le> 256"
  using wf_context_all [OF assms, of p] by blast+

lemma wfctx_append:
  "wfctx p d (xs @ ys) =
     (wfctx p d xs \<and> wfctx p (d + length xs) ys \<and>
      (\<forall>y\<in>set ys. \<forall>k\<in>keys y. \<forall>j<length xs. keyToPath k ! (d + j) = dir p (d + j)))"
proof (induction xs arbitrary: d)
  case Nil
  then show ?case by simp
next
  case (Cons x xs)
  have *: "(\<forall>j<Suc n. P j) = (P 0 \<and> (\<forall>j<n. P (Suc j)))" for n P
    by (auto simp: less_Suc_eq_0_disj)
  show ?case
    by (simp add: Cons.IH * ball_Un) blast
qed

text \<open>Rebuilding over a well-formed context gives a well-formed tree.\<close>

lemma wf_plug:
  assumes "wfctx p d ss" and "wf (d + length ss) u"
    and "\<forall>k\<in>keys u. \<forall>j<length ss. keyToPath k ! (d + j) = dir p (d + j)"
    and "ss \<noteq> [] \<longrightarrow> plural (last ss) u"
  shows "wf d (plug p d ss u)"
  using assms
proof (induction ss arbitrary: d)
  case Nil
  then show ?case by simp
next
  case (Cons x ss)
  let ?t = "plug p (Suc d) ss u"
  have "wf (Suc d) ?t"
  proof (rule Cons.IH)
    show "wfctx p (Suc d) ss" using Cons.prems(1) by simp
    show "wf (Suc d + length ss) u" using Cons.prems(2) by simp
    show "\<forall>k\<in>keys u. \<forall>j<length ss. keyToPath k ! (Suc d + j) = dir p (Suc d + j)"
    proof (intro ballI allI impI)
      fix k j
      assume k: "k \<in> keys u" and j: "j < length ss"
      from Cons.prems(3) k
      have "\<forall>j<length (x # ss). keyToPath k ! (d + j) = dir p (d + j)" by blast
      then have "Suc j < length (x # ss) \<longrightarrow> keyToPath k ! (d + Suc j) = dir p (d + Suc j)"
        by blast
      with j show "keyToPath k ! (Suc d + j) = dir p (Suc d + j)" by simp
    qed
    show "ss \<noteq> [] \<longrightarrow> plural (last ss) u" using Cons.prems(4) by auto
  qed
  moreover have "\<forall>k\<in>keys ?t. keyToPath k ! d = dir p d"
  proof
    fix k
    assume "k \<in> keys ?t"
    then consider "k \<in> keys u" | y where "y \<in> set ss" "k \<in> keys y"
      by (auto simp: keys_plug)
    then show "keyToPath k ! d = dir p d"
    proof cases
      case 1
      then have "keyToPath k ! (d + 0) = dir p (d + 0)"
        using Cons.prems(3) by fastforce
      then show ?thesis by simp
    next
      case 2
      then show ?thesis using Cons.prems(1) by auto
    qed
  qed
  moreover have "plural x ?t"
  proof (cases ss)
    case Nil
    with Cons.prems(4) show ?thesis by simp
  next
    case (Cons y ys)
    then have "isNode ?t" by (intro isNode_plug) simp
    then show ?thesis by (cases ?t) auto
  qed
  moreover have "plural ?t x" using \<open>plural x ?t\<close> by (auto simp: plural_def)
  ultimately show ?case
    using Cons.prems(1) by (auto simp: dir_def opp_def)
qed

section \<open>The loops of the tree object, on trees\<close>

lemma elems_inj: "elems c = elems c' \<Longrightarrow> c = c'"
  by (cases c; cases c') auto

lemma th_zero:
  assumes "\<forall>xs. H xs \<noteq> z"
  shows "th H z mk t = z \<longleftrightarrow> t = Empty"
  using assms by (cases t) auto

lemma th_inj:
  assumes "inj H" and "\<forall>xs. H xs \<noteq> z"
  shows "th H z mk t = th H z mk u \<Longrightarrow> t = u"
proof (induction t arbitrary: u)
  case Empty
  then show ?case using assms(2) by (cases u) (auto dest: sym)
next
  case (Leaf k v)
  then show ?case using assms by (cases u) (auto dest: injD)
next
  case (Node l r)
  show ?case
  proof (cases u)
    case Empty
    with Node.prems assms(2) show ?thesis by auto
  next
    case (Leaf k v)
    with Node.prems assms(1) show ?thesis by (auto dest: injD)
  next
    case (Node l' r')
    with Node.prems assms(1) have "th H z mk l = th H z mk l'" "th H z mk r = th H z mk r'"
      by (auto dest: injD)
    with Node.IH Node show ?thesis by auto
  qed
qed

lemma th_image_iff:
  assumes "inj H" and "\<forall>xs. H xs \<noteq> z"
  shows "th H z mk u \<in> th H z mk ` A \<longleftrightarrow> u \<in> A"
  using th_inj [OF assms] by blast

lemma th_cn: "t \<noteq> Empty \<Longrightarrow> H (elems (cn H z mk t)) = th H z mk t"
  by (cases t) auto

lemma stored_lookup:
  assumes "consistent H m" and "inj H" and "t \<noteq> Empty" and "th H z mk t \<in> dom m"
  shows "m (th H z mk t) = Some (cn H z mk t)"
proof -
  from assms(4) obtain c where c: "m (th H z mk t) = Some c" by auto
  with assms(1) have "th H z mk t = H (elems c)" by (auto simp: consistent_def)
  with th_cn [OF assms(3), of H z mk] assms(2) have "elems c = elems (cn H z mk t)"
    by (auto dest: injD)
  with c show ?thesis by (auto dest: elems_inj)
qed

lemma parentOf_th:
  "n < length sb \<Longrightarrow> sb ! n = th H z mk x \<Longrightarrow>
   H (elems (parentOf p n (th H z mk u) sb)) = th H z mk (plug p n [x] u)"
  by (simp add: parentOf_def)

lemma parentOf_cn:
  "n < length sb \<Longrightarrow> sb ! n = th H z mk x \<Longrightarrow>
   parentOf p n (th H z mk u) sb = cn H z mk (plug p n [x] u)"
  by (simp add: parentOf_def)

lemma take_snoc_map:
  assumes "take (length (xs @ [x])) sb = map f (xs @ [x])"
  shows "length xs < length sb" "sb ! length xs = f x" "take (length xs) sb = map f xs"
proof -
  from assms have "length (take (Suc (length xs)) sb) = Suc (length xs)" by simp
  then show len: "length xs < length sb" by simp
  from assms len have "take (length xs) sb @ [sb ! length xs] = map f xs @ [f x]"
    by (simp add: take_Suc_conv_app_nth)
  then show "sb ! length xs = f x" "take (length xs) sb = map f xs" by simp_all
qed

lemma plug_snoc: "plug p 0 (xs @ [x]) u = plug p 0 xs (plug p (length xs) [x] u)"
  by (simp add: plug_append)

lemma onpath_snoc:
  "onpath p 0 (xs @ [x]) u
     = insert (plug p (length xs) [x] u) (onpath p 0 xs (plug p (length xs) [x] u))"
  by (simp add: onpath_append)

lemma calculateRoot_loop_tree:
  "take (length ss) sb = map (th H z mk) ss \<Longrightarrow>
   calculateRoot_loop H (th H z mk u) p sb (length ss) = th H z mk (plug p 0 ss u)"
proof (induction ss arbitrary: u rule: rev_induct)
  case Nil
  then show ?case by simp
next
  case (snoc x xs)
  note T = take_snoc_map [OF snoc.prems]
  show ?case
    using snoc.IH [OF T(3), of "plug p (length xs) [x] u"] parentOf_th [OF T(1,2), where p = p and u = u]
    by (simp add: plug_snoc del: plug.simps)
qed

lemma calculateRoot_tree:
  "calculateRoot H (th H z mk u) p (map (th H z mk) ss) = th H z mk (plug p 0 ss u)"
  unfolding calculateRoot_def
  using calculateRoot_loop_tree [of ss "map (th H z mk) ss" H z mk u p] by simp

lemma deleteOldNodes_loop_tree:
  "take (length ss) sb = map (th H z mk) ss \<Longrightarrow>
   deleteOldNodes_loop H m (th H z mk u) p sb (length ss)
     = (\<lambda>h. if h \<in> th H z mk ` onpath p 0 ss u then None else m h)"
proof (induction ss arbitrary: u m rule: rev_induct)
  case Nil
  then show ?case by simp
next
  case (snoc x xs)
  note T = take_snoc_map [OF snoc.prems]
  let ?u = "plug p (length xs) [x] u"
  have "deleteOldNodes_loop H m (th H z mk u) p sb (length (xs @ [x]))
      = deleteOldNodes_loop H (m(th H z mk ?u := None)) (th H z mk ?u) p sb (length xs)"
    using parentOf_th [OF T(1,2), where p = p and u = u] by (simp add: Let_def del: plug.simps)
  also have "\<dots> = (\<lambda>h. if h \<in> th H z mk ` onpath p 0 xs ?u then None
      else (m(th H z mk ?u := None)) h)"
    by (rule snoc.IH [OF T(3)])
  also have "\<dots> = (\<lambda>h. if h \<in> th H z mk ` onpath p 0 (xs @ [x]) u then None else m h)"
    by (auto simp: onpath_snoc simp del: plug.simps)
  finally show ?case .
qed

lemma deleteOldNodes_tree:
  "deleteOldNodes H m (th H z mk u) p (map (th H z mk) ss)
     = (\<lambda>h. if h \<in> th H z mk ` onpath p 0 ss u then None else m h)"
  unfolding deleteOldNodes_def
  using deleteOldNodes_loop_tree [of ss "map (th H z mk) ss" H z mk m u p] by simp

lemma consistent_upd: "consistent H m \<Longrightarrow> consistent H (m(H (elems c) \<mapsto> c))"
  by (auto simp: consistent_def)

lemma consistent_del: "consistent H m \<Longrightarrow> consistent H (\<lambda>h. if h \<in> A then None else m h)"
  by (auto simp: consistent_def)

lemma consistent_del1: "consistent H m \<Longrightarrow> consistent H (m(h := None))"
  by (auto simp: consistent_def)

lemma addNewNodes_loop_tree:
  "take (length ss) sb = map (th H z mk) ss \<Longrightarrow> consistent H m \<Longrightarrow>
   snd (addNewNodes_loop H m (th H z mk u) p sb (length ss)) = th H z mk (plug p 0 ss u) \<and>
   consistent H (fst (addNewNodes_loop H m (th H z mk u) p sb (length ss))) \<and>
   dom (fst (addNewNodes_loop H m (th H z mk u) p sb (length ss)))
     = dom m \<union> th H z mk ` onpath p 0 ss u"
proof (induction ss arbitrary: u m rule: rev_induct)
  case Nil
  then show ?case by simp
next
  case (snoc x xs)
  note T = take_snoc_map [OF snoc.prems(1)]
  define tu where "tu = plug p (length xs) [x] u"
  define m' where "m' = m(th H z mk tu \<mapsto> cn H z mk tu)"
  have step: "addNewNodes_loop H m (th H z mk u) p sb (length (xs @ [x]))
      = addNewNodes_loop H m' (th H z mk tu) p sb (length xs)"
    using parentOf_th [OF T(1,2), where p = p and u = u]
      parentOf_cn [OF T(1,2), where p = p and u = u]
    by (simp add: Let_def m'_def tu_def del: plug.simps cn.simps)
  have "tu \<noteq> Empty" by (simp add: tu_def)
  then have "H (elems (cn H z mk tu)) = th H z mk tu" by (rule th_cn)
  with consistent_upd [OF snoc.prems(2), of "cn H z mk tu"] have cm: "consistent H m'"
    by (simp add: m'_def)
  have dm: "dom m' = insert (th H z mk tu) (dom m)" by (simp add: m'_def)
  have pl: "plug p 0 (xs @ [x]) u = plug p 0 xs tu"
    by (simp add: plug_snoc tu_def)
  have on: "onpath p 0 (xs @ [x]) u = insert tu (onpath p 0 xs tu)"
    by (simp add: onpath_snoc tu_def)
  from snoc.IH [OF T(3) cm, of tu] show ?case
    unfolding step pl on dm by auto
qed

lemma addNewNodes_tree:
  assumes "consistent H m" and "0 \<le> i + 1" and "nat (i + 1) \<le> length ss"
  shows "snd (addNewNodes H m (th H z mk u) p (map (th H z mk) ss) i)
           = th H z mk (plug p 0 (take (nat (i + 1)) ss) u)"
    and "consistent H (fst (addNewNodes H m (th H z mk u) p (map (th H z mk) ss) i))"
    and "dom (fst (addNewNodes H m (th H z mk u) p (map (th H z mk) ss) i))
           = dom m \<union> th H z mk ` onpath p 0 (take (nat (i + 1)) ss) u"
proof -
  let ?ss = "take (nat (i + 1)) ss"
  have len: "length ?ss = nat (i + 1)" using assms(3) by simp
  have "take (length ?ss) (map (th H z mk) ss) = map (th H z mk) ?ss"
    unfolding len by (simp add: take_map)
  from addNewNodes_loop_tree [OF this assms(1), of u p]
  show "snd (addNewNodes H m (th H z mk u) p (map (th H z mk) ss) i)
           = th H z mk (plug p 0 (take (nat (i + 1)) ss) u)"
    and "consistent H (fst (addNewNodes H m (th H z mk u) p (map (th H z mk) ss) i))"
    and "dom (fst (addNewNodes H m (th H z mk u) p (map (th H z mk) ss) i))
           = dom m \<union> th H z mk ` onpath p 0 (take (nat (i + 1)) ss) u"
    unfolding addNewNodes_def len by simp_all
qed

section \<open>The entry locator, on trees\<close>

lemma retrieveEntry_loop_tree:
  assumes H: "inj H" "\<forall>xs. H xs \<noteq> zeroNode s" and mk: "truthy (entryMark s)"
    and m: "consistent H (nodes s)" and p: "validPath p"
  shows "wf d t \<Longrightarrow> d \<le> 256 \<Longrightarrow>
    th H (zeroNode s) (entryMark s) ` nodesOf t \<subseteq> dom (nodes s) \<Longrightarrow>
    retrieveEntry_loop s key p d (th H (zeroNode s) (entryMark s) t) acc
      = Inr (response key (entryMark s) (focus p d t)
               (acc @ map (th H (zeroNode s) (entryMark s)) (sides p d t)))"
proof (induction t arbitrary: d acc)
  case Empty
  then show ?case
    by (subst retrieveEntry_loop.simps) (simp add: response_def)
next
  case (Leaf k v)
  let ?t = "Leaf k v"
  have nz: "th H (zeroNode s) (entryMark s) ?t \<noteq> zeroNode s" using H(2) by simp
  have "nodes s (th H (zeroNode s) (entryMark s) ?t) = Some (cn H (zeroNode s) (entryMark s) ?t)"
    by (rule stored_lookup [OF m H(1)]) (use Leaf.prems in auto)
  then show ?case
    using nz mk by (subst retrieveEntry_loop.simps) (simp add: response_def)
next
  case (Node l r)
  let ?t = "Node l r"
  let ?th = "th H (zeroNode s) (entryMark s)"
  have nz: "?th ?t \<noteq> zeroNode s" using H(2) by simp
  have st: "nodes s (?th ?t) = Some (Pair (?th l) (?th r))"
    using stored_lookup [OF m H(1), of ?t "zeroNode s" "entryMark s"] Node.prems(3) by simp
  from Node.prems have d: "d < 256" and wl: "wf (Suc d) l" and wr: "wf (Suc d) r" by simp_all
  from d p have atd: "at p d = Some (p ! d)" by (simp add: at_def validPath_def)
  from d p have pd: "p ! d = dir p d" by (simp add: dir_valid)
  from Node.prems(3) have sl: "?th ` nodesOf l \<subseteq> dom (nodes s)"
    and sr: "?th ` nodesOf r \<subseteq> dom (nodes s)" by auto
  from d have sd: "Suc d \<le> 256" by simp
  show ?case
  proof (cases "pathTruthy p d")
    case True
    then have "p ! d = N1" using pd by (simp add: dir_def)
    with nz st atd True Node.IH(2) [OF wr sd sr, of "acc @ [?th l]"] show ?thesis
      by (subst retrieveEntry_loop.simps) simp
  next
    case False
    then have "p ! d = N0" using pd by (simp add: dir_def)
    with nz st atd False Node.IH(1) [OF wl sd sl, of "acc @ [?th r]"] show ?thesis
      by (subst retrieveEntry_loop.simps) simp
  qed
qed

section \<open>Looking up, inserting and removing on trees\<close>

lemma focus_nodesOf: "focus p d t \<noteq> Empty \<Longrightarrow> focus p d t \<in> nodesOf t"
  using sides_focus_nodesOf [of p d t] nodesOf_self [of "focus p d t"] by auto

lemma validPath_nth: "validPath p \<Longrightarrow> j < 256 \<Longrightarrow> p ! j = N0 \<or> p ! j = N1"
proof -
  assume p: "validPath p" and "j < 256"
  then have "j < length p" by (simp add: validPath_def)
  then have "p ! j \<in> set p" by (rule nth_mem)
  with p show ?thesis unfolding validPath_def by blast
qed

lemma focus_Leaf_entries:
  assumes "focus p d t = Leaf k v"
  shows "(k, v) \<in> entries t"
proof -
  have "entries t = entries (plug p d (sides p d t) (focus p d t))" by simp
  then show ?thesis unfolding assms by (simp add: entries_plug)
qed

lemma entries_focus:
  assumes "validPath (keyToPath key)"
  shows "wf d t \<Longrightarrow> (key, v) \<in> entries t \<Longrightarrow> focus (keyToPath key) d t = Leaf key v"
proof (induction t arbitrary: d)
  case (Node l r)
  let ?p = "keyToPath key"
  from Node.prems have d: "d < 256" by simp
  then have pd: "?p ! d = dir ?p d" using assms by (simp add: dir_valid)
  show ?case
  proof (cases "(key, v) \<in> entries l")
    case True
    then have "key \<in> keys l" by (force simp: keys_entries)
    with Node.prems(1) have "?p ! d = N0" by simp
    with pd have "\<not> pathTruthy ?p d" by (auto simp: dir_def split: if_splits)
    with Node.IH(1) [of "Suc d"] Node.prems(1) True show ?thesis by simp
  next
    case False
    with Node.prems(2) have r: "(key, v) \<in> entries r" by simp
    then have "key \<in> keys r" by (force simp: keys_entries)
    with Node.prems(1) have "?p ! d = N1" by simp
    with pd have "pathTruthy ?p d" by (auto simp: dir_def split: if_splits)
    with Node.IH(2) [of "Suc d"] Node.prems(1) r show ?thesis by simp
  qed
qed auto

lemma focus_other_key:
  assumes "validPath (keyToPath key)" and "wf d t"
    and "focus (keyToPath key) d t = Leaf k v" and "k \<noteq> key"
  shows "key \<notin> keys t"
proof
  assume "key \<in> keys t"
  then obtain w where "(key, w) \<in> entries t" by (auto simp: keys_entries)
  from entries_focus [OF assms(1,2) this] assms(3,4) show False by simp
qed

lemma focus_Empty_key:
  assumes "validPath (keyToPath key)" and "wf d t" and "focus (keyToPath key) d t = Empty"
  shows "key \<notin> keys t"
proof
  assume "key \<in> keys t"
  then obtain w where "(key, w) \<in> entries t" by (auto simp: keys_entries)
  from entries_focus [OF assms(1,2) this] assms(3) show False by simp
qed

lemma wf_entries_functional:
  assumes "wf d t" and "(k, v) \<in> entries t" and "(k, w) \<in> entries t"
  shows "v = w"
proof -
  from assms(2) have "k \<in> keys t" by (force simp: keys_entries)
  then obtain u where "u \<in> nodesOf t" "k \<in> keys u" "\<exists>x. u = Leaf k x"
    by (induction t) auto
  have vp: "validPath (keyToPath k)"
    using assms(1) \<open>k \<in> keys t\<close> by (induction t arbitrary: d) auto
  from entries_focus [OF vp assms(1,2)] entries_focus [OF vp assms(1,3)] show ?thesis by simp
qed

lemma wfctx_opp:
  "wfctx p d ss \<Longrightarrow> x \<in> set ss \<Longrightarrow> k \<in> keys x
     \<Longrightarrow> \<exists>j<length ss. keyToPath k ! (d + j) = opp p (d + j)"
proof (induction ss arbitrary: d)
  case Nil
  then show ?case by simp
next
  case (Cons y ss)
  show ?case
  proof (cases "x = y")
    case True
    with Cons.prems have "keyToPath k ! (d + 0) = opp p (d + 0)" by simp
    then show ?thesis by (intro exI [of _ 0]) simp
  next
    case False
    with Cons.prems have "x \<in> set ss" "wfctx p (Suc d) ss" by simp_all
    from Cons.IH [OF this(2,1) Cons.prems(3)] obtain j where
      "j < length ss" "keyToPath k ! (Suc d + j) = opp p (Suc d + j)" by blast
    then show ?thesis by (intro exI [of _ "Suc j"]) simp
  qed
qed

lemma wfctx_length: "wfctx p d ss \<Longrightarrow> ss \<noteq> [] \<Longrightarrow> d + length ss \<le> 256"
proof (induction ss arbitrary: d)
  case Nil
  then show ?case by simp
next
  case (Cons y ss)
  show ?case
  proof (cases "ss = []")
    case True
    with Cons.prems show ?thesis by simp
  next
    case False
    with Cons.IH [of "Suc d"] Cons.prems show ?thesis by simp
  qed
qed

lemma wfctx_wf: "wfctx p d ss \<Longrightarrow> i < length ss \<Longrightarrow> wf (Suc (d + i)) (ss ! i)"
proof (induction ss arbitrary: d i)
  case Nil
  then show ?case by simp
next
  case (Cons y ss)
  show ?case
  proof (cases i)
    case 0
    with Cons.prems show ?thesis by simp
  next
    case (Suc n)
    with Cons.prems have "wf (Suc (Suc d + n)) (ss ! n)" by (intro Cons.IH) auto
    with Suc show ?thesis by simp
  qed
qed

lemma key_not_in_sides:
  assumes "validPath (keyToPath key)" and "wfctx (keyToPath key) d ss" and "x \<in> set ss"
  shows "key \<notin> keys x"
proof
  assume "key \<in> keys x"
  from wfctx_opp [OF assms(2,3) this] obtain j where
    j: "j < length ss" "keyToPath key ! (d + j) = opp (keyToPath key) (d + j)" by blast
  from assms(3) have "ss \<noteq> []" by auto
  from wfctx_length [OF assms(2) this] j(1) have "d + j < 256" by simp
  from dir_valid [OF assms(1) this] j(2) show False by simp
qed

lemma key_follows_path:
  "validPath (keyToPath key) \<Longrightarrow> d + n \<le> 256
     \<Longrightarrow> \<forall>k\<in>keys (Leaf key v). \<forall>j<n. keyToPath k ! (d + j) = dir (keyToPath key) (d + j)"
  by (simp add: dir_valid)

text \<open>Inserting at an empty slot.\<close>

lemma insert_at_empty:
  assumes vp: "validPath (keyToPath key)" and wf: "wf 0 t"
    and f: "focus (keyToPath key) 0 t = Empty"
  shows "wf 0 (plug (keyToPath key) 0 (sides (keyToPath key) 0 t) (Leaf key v))"
    and "entries (plug (keyToPath key) 0 (sides (keyToPath key) 0 t) (Leaf key v))
           = insert (key, v) (entries t)"
proof -
  let ?p = "keyToPath key" let ?ss = "sides ?p 0 t"
  note C = wf_context [OF wf, of ?p, simplified]
  show "wf 0 (plug ?p 0 ?ss (Leaf key v))"
  proof (rule wf_plug)
    show "wfctx ?p 0 ?ss" by (rule C(1))
    show "wf (0 + length ?ss) (Leaf key v)" using vp by simp
    show "\<forall>k\<in>keys (Leaf key v). \<forall>j<length ?ss. keyToPath k ! (0 + j) = dir ?p (0 + j)"
      by (rule key_follows_path [OF vp]) (use C(5) in simp)
    show "?ss \<noteq> [] \<longrightarrow> plural (last ?ss) (Leaf key v)"
      using C(4) f by (cases "last ?ss") auto
  qed
  have "entries t = entries (plug ?p 0 ?ss (focus ?p 0 t))" by simp
  then show "entries (plug ?p 0 ?ss (Leaf key v)) = insert (key, v) (entries t)"
    unfolding f by (simp add: entries_plug)
qed

text \<open>Inserting where another leaf stands: the two leaves part at the first level at
  which their paths differ.\<close>

lemma wfctx_zeros_leaf:
  assumes "e + n < 256" and "wf (Suc (e + n)) x"
    and "\<forall>k\<in>keys x. keyToPath k ! (e + n) = opp p (e + n)"
    and "\<forall>k\<in>keys x. \<forall>j<n. keyToPath k ! (e + j) = dir p (e + j)"
  shows "wfctx p e (replicate n Empty @ [x])"
  using assms
proof (induction n arbitrary: e)
  case 0
  then show ?case by simp
next
  case (Suc n)
  have "wfctx p (Suc e) (replicate n Empty @ [x])"
  proof (rule Suc.IH)
    show "Suc e + n < 256" using Suc.prems(1) by simp
    show "wf (Suc (Suc e + n)) x" using Suc.prems(2) by simp
    show "\<forall>k\<in>keys x. keyToPath k ! (Suc e + n) = opp p (Suc e + n)"
      using Suc.prems(3) by simp
    show "\<forall>k\<in>keys x. \<forall>j<n. keyToPath k ! (Suc e + j) = dir p (Suc e + j)"
    proof (intro ballI allI impI)
      fix k j
      assume "k \<in> keys x" "j < n"
      with Suc.prems(4) have "keyToPath k ! (e + Suc j) = dir p (e + Suc j)" by blast
      then show "keyToPath k ! (Suc e + j) = dir p (Suc e + j)" by simp
    qed
  qed
  moreover have "\<forall>k\<in>keys x. keyToPath k ! e = dir p e"
  proof
    fix k assume "k \<in> keys x"
    with Suc.prems(4) have "keyToPath k ! (e + 0) = dir p (e + 0)" by blast
    then show "keyToPath k ! e = dir p e" by simp
  qed
  ultimately show ?case using Suc.prems(1) by auto
qed

lemma insert_at_leaf:
  assumes vp: "validPath (keyToPath key)" and wf: "wf 0 t"
    and f: "focus (keyToPath key) 0 t = Leaf k' v'"
    and n: "length (sides (keyToPath key) 0 t) + n < 256"
    and agree: "\<forall>j<n. keyToPath k' ! (length (sides (keyToPath key) 0 t) + j)
                  = keyToPath key ! (length (sides (keyToPath key) 0 t) + j)"
    and differ: "keyToPath k' ! (length (sides (keyToPath key) 0 t) + n)
                  \<noteq> keyToPath key ! (length (sides (keyToPath key) 0 t) + n)"
  shows "wf 0 (plug (keyToPath key) 0
           (sides (keyToPath key) 0 t @ replicate n Empty @ [Leaf k' v']) (Leaf key v))"
    and "entries (plug (keyToPath key) 0
           (sides (keyToPath key) 0 t @ replicate n Empty @ [Leaf k' v']) (Leaf key v))
         = insert (key, v) (entries t)"
proof -
  let ?p = "keyToPath key" let ?ss = "sides ?p 0 t" let ?q = "keyToPath k'"
  let ?e = "length ?ss"
  let ?ss2 = "?ss @ replicate n Empty @ [Leaf k' v']"
  note C = wf_context [OF wf, of ?p, simplified]
  from C(2) f have vq: "validPath ?q" by simp
  have dirp: "dir ?p j = ?p ! j" if "j < 256" for j using dir_valid [OF vp that] .
  have qbit: "?q ! j = N0 \<or> ?q ! j = N1" if "j < 256" for j
    using validPath_nth [OF vq that] .
  have pbit: "?p ! j = N0 \<or> ?p ! j = N1" if "j < 256" for j
    using validPath_nth [OF vp that] .
  have opp: "?q ! (?e + n) = opp ?p (?e + n)"
    using differ qbit [OF n] pbit [OF n] dirp [OF n]
    by (auto simp: opp_def dir_def split: if_splits)
  have ctx2: "wfctx ?p ?e (replicate n Empty @ [Leaf k' v'])"
  proof (rule wfctx_zeros_leaf [OF n])
    show "wf (Suc (?e + n)) (Leaf k' v')" using vq by simp
    show "\<forall>k\<in>keys (Leaf k' v'). keyToPath k ! (?e + n) = opp ?p (?e + n)"
      using opp by simp
    show "\<forall>k\<in>keys (Leaf k' v'). \<forall>j<n. keyToPath k ! (?e + j) = dir ?p (?e + j)"
      using agree n by (simp add: dirp)
  qed
  have ctx: "wfctx ?p 0 ?ss2"
  proof (subst wfctx_append [where xs = ?ss], intro conjI)
    show "wfctx ?p 0 ?ss" by (rule C(1))
    show "wfctx ?p (0 + length ?ss) (replicate n Empty @ [Leaf k' v'])"
      using ctx2 by simp
    show "\<forall>y\<in>set (replicate n Empty @ [Leaf k' v']). \<forall>k\<in>keys y. \<forall>j<length ?ss.
        keyToPath k ! (0 + j) = dir ?p (0 + j)"
      using C(3) f by auto
  qed
  show "wf 0 (plug ?p 0 ?ss2 (Leaf key v))"
  proof (rule wf_plug [OF ctx])
    show "wf (0 + length ?ss2) (Leaf key v)" using vp by simp
    show "\<forall>k\<in>keys (Leaf key v). \<forall>j<length ?ss2. keyToPath k ! (0 + j) = dir ?p (0 + j)"
      by (rule key_follows_path [OF vp]) (use n in simp)
    show "?ss2 \<noteq> [] \<longrightarrow> plural (last ?ss2) (Leaf key v)" by simp
  qed
  have "entries t = entries (plug ?p 0 ?ss (focus ?p 0 t))" by simp
  then show "entries (plug ?p 0 ?ss2 (Leaf key v)) = insert (key, v) (entries t)"
    unfolding f by (auto simp: entries_plug)
qed

text \<open>Replacing the value of a leaf.\<close>

lemma entries_without_focus:
  assumes vp: "validPath (keyToPath key)" and wf: "wf 0 t"
    and f: "focus (keyToPath key) 0 t = Leaf key v"
  shows "(\<Union>x\<in>set (sides (keyToPath key) 0 t). entries x) = entries t - {(key, v)}"
proof -
  let ?p = "keyToPath key" let ?ss = "sides ?p 0 t"
  note C = wf_context [OF wf, of ?p, simplified]
  have "entries t = entries (plug ?p 0 ?ss (focus ?p 0 t))" by simp
  then have e: "entries t = insert (key, v) (\<Union>x\<in>set ?ss. entries x)"
    unfolding f by (simp add: entries_plug)
  have "(key, v) \<notin> (\<Union>x\<in>set ?ss. entries x)"
  proof
    assume "(key, v) \<in> (\<Union>x\<in>set ?ss. entries x)"
    then obtain x where x: "x \<in> set ?ss" "(key, v) \<in> entries x" by auto
    then have "key \<in> keys x" by (force simp: keys_entries)
    with key_not_in_sides [OF vp C(1) x(1)] show False by simp
  qed
  with e show ?thesis by auto
qed

lemma replace_leaf:
  assumes vp: "validPath (keyToPath key)" and wf: "wf 0 t"
    and f: "focus (keyToPath key) 0 t = Leaf key v"
  shows "wf 0 (plug (keyToPath key) 0 (sides (keyToPath key) 0 t) (Leaf key w))"
    and "entries (plug (keyToPath key) 0 (sides (keyToPath key) 0 t) (Leaf key w))
           = insert (key, w) (entries t - {(key, v)})"
proof -
  let ?p = "keyToPath key" let ?ss = "sides ?p 0 t"
  note C = wf_context [OF wf, of ?p, simplified]
  show "wf 0 (plug ?p 0 ?ss (Leaf key w))"
  proof (rule wf_plug)
    show "wfctx ?p 0 ?ss" by (rule C(1))
    show "wf (0 + length ?ss) (Leaf key w)" using vp by simp
    show "\<forall>k\<in>keys (Leaf key w). \<forall>j<length ?ss. keyToPath k ! (0 + j) = dir ?p (0 + j)"
      by (rule key_follows_path [OF vp]) (use C(5) in simp)
    show "?ss \<noteq> [] \<longrightarrow> plural (last ?ss) (Leaf key w)"
      using C(4) f by simp
  qed
  show "entries (plug ?p 0 ?ss (Leaf key w)) = insert (key, w) (entries t - {(key, v)})"
    using entries_without_focus [OF assms] by (simp add: entries_plug)
qed

text \<open>Removing a leaf whose sibling is an internal node.\<close>

lemma remove_leaf_keep:
  assumes vp: "validPath (keyToPath key)" and wf: "wf 0 t"
    and f: "focus (keyToPath key) 0 t = Leaf key v"
    and ne: "sides (keyToPath key) 0 t \<noteq> []" and nd: "isNode (last (sides (keyToPath key) 0 t))"
  shows "wf 0 (plug (keyToPath key) 0 (sides (keyToPath key) 0 t) Empty)"
    and "entries (plug (keyToPath key) 0 (sides (keyToPath key) 0 t) Empty)
           = entries t - {(key, v)}"
proof -
  let ?p = "keyToPath key" let ?ss = "sides ?p 0 t"
  note C = wf_context [OF wf, of ?p, simplified]
  show "wf 0 (plug ?p 0 ?ss Empty)"
  proof (rule wf_plug)
    show "wfctx ?p 0 ?ss" by (rule C(1))
    show "wf (0 + length ?ss) Empty" by simp
    show "\<forall>k\<in>keys Empty. \<forall>j<length ?ss. keyToPath k ! (0 + j) = dir ?p (0 + j)" by simp
    show "?ss \<noteq> [] \<longrightarrow> plural (last ?ss) Empty" using nd by simp
  qed
  show "entries (plug ?p 0 ?ss Empty) = entries t - {(key, v)}"
    using entries_without_focus [OF vp wf f] by (simp add: entries_plug)
qed

text \<open>Removing a leaf whose sibling is a leaf: the sibling moves up past the empty
  siblings.\<close>

lemma remove_leaf_collapse:
  assumes vp: "validPath (keyToPath key)" and wf: "wf 0 t"
    and f: "focus (keyToPath key) 0 t = Leaf key v"
    and ss: "sides (keyToPath key) 0 t = ss' @ [Leaf k' v']"
    and c: "c \<le> length ss'" and last: "c \<noteq> 0 \<longrightarrow> ss' ! (c - 1) \<noteq> Empty"
    and zeros: "\<forall>j. c \<le> j \<and> j < length ss' \<longrightarrow> ss' ! j = Empty"
  shows "wf 0 (plug (keyToPath key) 0 (take c ss') (Leaf k' v'))"
    and "entries (plug (keyToPath key) 0 (take c ss') (Leaf k' v')) = entries t - {(key, v)}"
proof -
  let ?p = "keyToPath key" let ?ss = "sides ?p 0 t"
  note C = wf_context [OF wf, of ?p, simplified]
  have split: "?ss = take c ss' @ (drop c ss' @ [Leaf k' v'])" using ss by simp
  from C(1) have ctx: "wfctx ?p 0 (take c ss' @ (drop c ss' @ [Leaf k' v']))"
    unfolding split [symmetric] .
  have lt: "length (take c ss') = c" using c by simp
  have wl: "wf (Suc (0 + length ss')) (?ss ! length ss')"
    by (rule wfctx_wf [OF C(1)]) (simp add: ss)
  show "wf 0 (plug ?p 0 (take c ss') (Leaf k' v'))"
  proof (rule wf_plug)
    show "wfctx ?p 0 (take c ss')" using ctx unfolding wfctx_append by blast
    show "wf (0 + length (take c ss')) (Leaf k' v')" using wl by (simp add: ss)
    show "\<forall>k\<in>keys (Leaf k' v'). \<forall>j<length (take c ss').
        keyToPath k ! (0 + j) = dir ?p (0 + j)"
      using ctx unfolding wfctx_append by auto
    show "take c ss' \<noteq> [] \<longrightarrow> plural (last (take c ss')) (Leaf k' v')"
    proof
      assume ne: "take c ss' \<noteq> []"
      then have c0: "c \<noteq> 0" by auto
      from ne have "last (take c ss') = take c ss' ! (length (take c ss') - 1)"
        by (rule last_conv_nth)
      also have "\<dots> = ss' ! (c - 1)" using c c0 by (simp add: lt)
      finally show "plural (last (take c ss')) (Leaf k' v')" using last c0 by simp
    qed
  qed
  have "(\<Union>x\<in>set (drop c ss'). entries x) = {}"
  proof -
    have "entries x = {}" if "x \<in> set (drop c ss')" for x
    proof -
      from that obtain j where "j < length (drop c ss')" "x = drop c ss' ! j"
        by (auto simp: in_set_conv_nth)
      with zeros have "x = Empty" by simp
      then show ?thesis by simp
    qed
    then show ?thesis by blast
  qed
  moreover have "(\<Union>x\<in>set ss'. entries x)
      = (\<Union>x\<in>set (take c ss'). entries x) \<union> (\<Union>x\<in>set (drop c ss'). entries x)"
    by (subst append_take_drop_id [of c ss', symmetric], subst set_append) blast
  ultimately show "entries (plug ?p 0 (take c ss') (Leaf k' v')) = entries t - {(key, v)}"
    using entries_without_focus [OF vp wf f] by (simp add: entries_plug ss)
qed

lemma remove_only_leaf:
  assumes "focus p 0 t = Leaf key v" and "sides p 0 t = []"
  shows "t = Leaf key v"
  using plug_sides_focus [of p 0 t] assms by simp

text \<open>A well-formed tree is determined by its entries.\<close>

lemma wf_Node_two_keys:
  "wf d t \<Longrightarrow> isNode t \<Longrightarrow> \<exists>k k'. k \<in> keys t \<and> k' \<in> keys t \<and> k \<noteq> k'"
proof (induction t arbitrary: d)
  case (Node l r)
  show ?case
  proof (cases "isNode l \<or> isNode r")
    case True
    with Node.IH [of "Suc d"] Node.prems show ?thesis by auto
  next
    case False
    with Node.prems obtain k v k' v' where lr: "l = Leaf k v" "r = Leaf k' v'"
      by (cases l; cases r) (auto simp: plural_def)
    with Node.prems have "keyToPath k ! d = N0" "keyToPath k' ! d = N1" by simp_all
    then have "k \<noteq> k'" by auto
    with lr show ?thesis by auto
  qed
qed auto

lemma wf_unique:
  "wf d t \<Longrightarrow> wf d u \<Longrightarrow> entries t = entries u \<Longrightarrow> t = u"
proof (induction t arbitrary: d u)
  case Empty
  then show ?case
    using wf_keys_nonempty [of d u] by (auto simp: keys_entries)
next
  case (Leaf k v)
  show ?case
  proof (cases u)
    case Empty
    with Leaf.prems show ?thesis by simp
  next
    case (Leaf k' v')
    with Leaf.prems show ?thesis by simp
  next
    case (Node l r)
    have ku: "keys u = {k}" using Leaf.prems(3) [symmetric] by (simp add: keys_entries)
    from wf_Node_two_keys [OF Leaf.prems(2)] Node obtain a b where
      "a \<in> keys u" "b \<in> keys u" "a \<noteq> b" by auto
    with ku show ?thesis by auto
  qed
next
  case (Node l r)
  have ku: "keys (Node l r) = keys u" using Node.prems(3) by (simp only: keys_entries)
  from wf_Node_two_keys [OF Node.prems(1)] obtain a b where
    ab: "a \<in> keys (Node l r)" "b \<in> keys (Node l r)" "a \<noteq> b" by auto
  obtain l' r' where u: "u = Node l' r'"
    using ab unfolding ku by (cases u) auto
  have part: "entries a = {e \<in> entries (Node a b). keyToPath (fst e) ! d = N0} \<and>
      entries b = {e \<in> entries (Node a b). keyToPath (fst e) ! d = N1}"
    if "wf d (Node a b)" for a b
  proof -
    from that have a: "\<forall>e\<in>entries a. keyToPath (fst e) ! d = N0"
      and b: "\<forall>e\<in>entries b. keyToPath (fst e) ! d = N1"
      by (auto simp: keys_entries)
    then show ?thesis by auto
  qed
  from part [OF Node.prems(1)] part [OF Node.prems(2) [unfolded u]] Node.prems(3) u
  have "entries l = entries l'" "entries r = entries r'" by auto
  with Node.IH [of "Suc d"] Node.prems u show ?case by auto
qed

section \<open>The operations on represented trees\<close>

lemma validKey_validPath:
  assumes "validKey b key"
  shows "validPath (keyToPath key)"
proof -
  let ?f = "\<lambda>i. if bit (keyNumber key) i then N1 else N0"
  have eq: "keyToPath key = map ?f [0..<256]" by (rule keyToPath_bits [OF assms])
  have "length (map ?f [0..<256]) = 256" by (simp only: length_map length_upt diff_zero)
  moreover have "set (map ?f [0..<256]) \<subseteq> {N0, N1}"
    unfolding set_map by (rule image_subsetI) simp
  ultimately show ?thesis unfolding validPath_def eq by blast
qed

lemma validKey_checkParameterType:
  "validKey (bigNumbers s) key \<Longrightarrow> checkParameterType s key = None"
  by (cases key) (auto simp: validKey_def checkParameterType_def split: if_splits)

lemma isZeroNumber_zeroNode [simp]: "isZeroNumber (zeroNode s)"
  by (simp add: zeroNode_def isWhiteSpace_def)

lemma truthy_entryMark [simp]: "truthy (entryMark s)"
  by (simp add: entryMark_def)

lemma hashOk_zero: "hashOk H \<Longrightarrow> \<forall>xs. H xs \<noteq> zeroNode s"
  unfolding hashOk_def by (metis isZeroNumber_zeroNode)

lemma hashOk_inj: "hashOk H \<Longrightarrow> inj H"
  by (simp add: hashOk_def)

lemma zeroNode_upd [simp]: "zeroNode (s\<lparr>nodes := m, root := r\<rparr>) = zeroNode s"
  by (simp add: zeroNode_def)

lemma entryMark_upd [simp]: "entryMark (s\<lparr>nodes := m, root := r\<rparr>) = entryMark s"
  by (simp add: entryMark_def)

lemma retrieveEntry_tree:
  assumes "hashOk H" and "represents H s t" and "validPath (keyToPath key)"
  shows "retrieveEntry s key
    = Inr (response key (entryMark s) (focus (keyToPath key) 0 t)
             (map (th H (zeroNode s) (entryMark s)) (sides (keyToPath key) 0 t)))"
  unfolding retrieveEntry_def
  using retrieveEntry_loop_tree [OF hashOk_inj [OF assms(1)] hashOk_zero [OF assms(1)]
      truthy_entryMark _ assms(3), where t = t and d = 0 and key = key and acc = "[]"]
    assms(2)
  by (simp add: represents_def)

text \<open>The loop that extends the siblings.\<close>

lemma extendSiblings_result:
  "extendSiblings q p z i sb = Inr r \<Longrightarrow>
   \<exists>n. r = sb @ replicate n z \<and> \<not> strictEqU (at q (i + n)) (at p (i + n)) \<and>
       (\<forall>l<n. strictEqU (at q (i + l)) (at p (i + l)))"
proof (induction q p z i sb rule: extendSiblings.induct)
  case (1 q p z i sb)
  show ?case
  proof (cases "strictEqU (at q i) (at p i)")
    case False
    with "1.prems" have "r = sb" by (subst (asm) extendSiblings.simps) simp
    with False have "r = sb @ replicate 0 z \<and> \<not> strictEqU (at q (i + 0)) (at p (i + 0)) \<and>
        (\<forall>l<0. strictEqU (at q (i + l)) (at p (i + l)))" by simp
    then show ?thesis by (rule exI)
  next
    case True
    with "1.prems" have pu: "push sb z = Inr (sb @ [z])"
      and rec: "extendSiblings q p z (i + 1) (sb @ [z]) = Inr r"
      by (subst (asm) extendSiblings.simps, simp add: push_def split: if_splits)+
    from "1.IH" [OF True pu rec] obtain n where
      n1: "r = (sb @ [z]) @ replicate n z"
      and n2: "\<not> strictEqU (at q (i + 1 + n)) (at p (i + 1 + n))"
      and n3: "\<forall>l<n. strictEqU (at q (i + 1 + l)) (at p (i + 1 + l))" by blast
    have a: "r = sb @ replicate (Suc n) z" using n1 by (simp add: replicate_app_Cons_same)
    have b: "\<not> strictEqU (at q (i + Suc n)) (at p (i + Suc n))" using n2 by simp
    have c: "\<forall>l<Suc n. strictEqU (at q (i + l)) (at p (i + l))"
    proof (intro allI impI)
      fix l assume l: "l < Suc n"
      show "strictEqU (at q (i + l)) (at p (i + l))"
      proof (cases l)
        case 0
        with True show ?thesis by simp
      next
        case (Suc l')
        with l have "l' < n" by simp
        with n3 have "strictEqU (at q (i + 1 + l')) (at p (i + 1 + l'))" by blast
        with Suc show ?thesis by simp
      qed
    qed
    from a b c show ?thesis by blast
  qed
qed

lemma extendSiblings_terminates:
  "\<not> strictEqU (at q (i + n)) (at p (i + n)) \<Longrightarrow> length sb + n \<le> maxArrayLength \<Longrightarrow>
   \<exists>r. extendSiblings q p z i sb = Inr r"
proof (induction n arbitrary: i sb)
  case 0
  then show ?case by (subst extendSiblings.simps) simp
next
  case (Suc n)
  from Suc.prems have "\<exists>r. extendSiblings q p z (i + 1) (sb @ [z]) = Inr r"
    by (intro Suc.IH) simp_all
  moreover from Suc.prems(2) have "push sb z = Inr (sb @ [z])" by (simp add: push_def)
  ultimately show ?case by (subst extendSiblings.simps) auto
qed

text \<open>On two paths that agree everywhere the loop ends with the RangeError of \<open>push\<close>.\<close>

lemma extendSiblings_equal_paths:
  "\<forall>j. strictEqU (at q j) (at p j) \<Longrightarrow> extendSiblings q p z i sb = Inl RangeError"
proof (induction q p z i sb rule: extendSiblings.induct)
  case (1 q p z i sb)
  from "1.prems" have eq: "strictEqU (at q i) (at p i)" by blast
  show ?case
  proof (cases "length sb < maxArrayLength")
    case True
    then have pu: "push sb z = Inr (sb @ [z])" by (simp add: push_def)
    from "1.IH" [OF eq pu "1.prems"] eq pu show ?thesis
      by (subst extendSiblings.simps) simp
  next
    case False
    then have "push sb z = Inl RangeError" by (simp add: push_def)
    with eq show ?thesis by (subst extendSiblings.simps) simp
  qed
qed

lemma strictEqU_valid:
  assumes "validPath q" and "validPath p"
  shows "strictEqU (at q j) (at p j) \<longleftrightarrow> (j < 256 \<longrightarrow> q ! j = p ! j)"
proof (cases "j < 256")
  case True
  with validPath_nth [OF assms(1) True] validPath_nth [OF assms(2) True] assms show ?thesis
    by (auto simp: at_def validPath_def strictEq_def)
next
  case False
  with assms show ?thesis by (simp add: at_def validPath_def)
qed

text \<open>The store after the old nodes of the path are deleted still holds every node
  that hangs off the path.\<close>

lemma pruned_store:
  assumes "inj H" and "\<forall>xs. H xs \<noteq> z" and "wf 0 t"
    and "th H z mk ` nodesOf t \<subseteq> dom m"
    and "x \<in> set (sides p 0 t) \<or> x = focus p 0 t" and "u \<in> nodesOf x"
  shows "th H z mk u
    \<in> dom (\<lambda>h. if h \<in> th H z mk ` onpath p 0 (sides p 0 t) (focus p 0 t) then None else m h)"
proof -
  from assms(5,6) have u: "u \<in> (\<Union>x\<in>set (sides p 0 t). nodesOf x) \<union> nodesOf (focus p 0 t)"
    by auto
  with sides_focus_nodesOf [of p 0 t] have "u \<in> nodesOf t" by blast
  with assms(4) have "th H z mk u \<in> dom m" by blast
  moreover from onpath_separate [OF assms(3) u]
  have "th H z mk u \<notin> th H z mk ` onpath p 0 (sides p 0 t) (focus p 0 t)"
    by (simp add: th_image_iff [OF assms(1,2)])
  ultimately show ?thesis by (auto simp: dom_def)
qed

text \<open>The last three statements of \<open>add\<close> rebuild the path over the siblings.\<close>

lemma add_finish_tree:
  assumes "inj H" and "consistent H m1"
    and "\<forall>x\<in>set ss2. th H (zeroNode s) (entryMark s) ` nodesOf x \<subseteq> dom m1"
    and "wf 0 (plug p 0 ss2 (Leaf key v))"
  shows "\<exists>s'. add_finish H s m1 key v p (map (th H (zeroNode s) (entryMark s)) ss2) = Ok s' \<and>
           bigNumbers s' = bigNumbers s \<and>
           represents H s' (plug p 0 ss2 (Leaf key v))"
proof -
  let ?th = "th H (zeroNode s) (entryMark s)"
  let ?u = "Leaf key v"
  let ?m2 = "m1(?th ?u \<mapsto> cn H (zeroNode s) (entryMark s) ?u)"
  let ?i = "int (length (map ?th ss2)) - 1"
  let ?r = "addNewNodes H ?m2 (?th ?u) p (map ?th ss2) ?i"
  have c2: "consistent H ?m2"
    using consistent_upd [OF assms(2), of "cn H (zeroNode s) (entryMark s) ?u"] by simp
  have n: "nat (?i + 1) = length ss2" by simp
  note A = addNewNodes_tree [OF c2, of ?i ss2 "zeroNode s" "entryMark s" ?u p, unfolded n]
  have A1: "snd ?r = ?th (plug p 0 ss2 ?u)" using A(1) by simp
  have A2: "consistent H (fst ?r)" using A(2) by simp
  have A3: "dom (fst ?r) = dom ?m2 \<union> ?th ` onpath p 0 ss2 ?u" using A(3) by simp
  define s' where "s' = s\<lparr>nodes := fst ?r, root := snd ?r\<rparr>"
  have fin: "add_finish H s m1 key v p (map ?th ss2) = Ok s'"
    by (simp add: add_finish_def Let_def s'_def split_beta)
  have "?th ` nodesOf (plug p 0 ss2 ?u) \<subseteq> dom (fst ?r)"
    unfolding nodesOf_plug A3 using assms(3) by auto
  then have "represents H s' (plug p 0 ss2 ?u)"
    using assms(4) A1 A2 by (simp add: represents_def s'_def)
  with fin show ?thesis by (auto simp: s'_def)
qed

lemma matchingEntry_response:
  "matchingEntry (response key mk f sb)
     = (case f of Leaf k v \<Rightarrow> if k = key then None else Some [k, v, mk] | _ \<Rightarrow> None)"
  "siblings (response key mk f sb) = sb"
  "entry (response key mk f sb)
     = (case f of Leaf k v \<Rightarrow> if k = key then [k, v, mk] else [key] | _ \<Rightarrow> [key])"
  by (auto simp: response_def split: tree.splits)

lemma deleteOldNodes_if_tree:
  "(if ss \<noteq> [] then deleteOldNodes H m (th H z mk u) p (map (th H z mk) ss) else m)
   = (\<lambda>h. if h \<in> th H z mk ` onpath p 0 ss u then None else m h)"
proof (cases "ss = []")
  case True
  then show ?thesis by simp
next
  case False
  then show ?thesis using deleteOldNodes_tree [of H m z mk u p ss] by simp
qed

lemma add_at_empty:
  assumes H: "hashOk H" and R: "represents H s t" and k: "validKey (bigNumbers s) key"
    and v: "checkParameterType s v = None" and f: "focus (keyToPath key) 0 t = Empty"
  shows "\<exists>s'. add H s key v = Ok s' \<and> bigNumbers s' = bigNumbers s \<and>
      represents H s' (plug (keyToPath key) 0 (sides (keyToPath key) 0 t) (Leaf key v))"
proof -
  let ?p = "keyToPath key" let ?ss = "sides ?p 0 t"
  let ?z = "zeroNode s" let ?mk = "entryMark s" let ?th = "th H ?z ?mk"
  let ?m1 = "\<lambda>h. if h \<in> ?th ` onpath ?p 0 ?ss Empty then None else nodes s h"
  note vp = validKey_validPath [OF k]
  note inj = hashOk_inj [OF H] and nz = hashOk_zero [OF H, of s]
  from R have wf: "wf 0 t" and con: "consistent H (nodes s)"
    and st: "?th ` nodesOf t \<subseteq> dom (nodes s)" by (simp_all add: represents_def)
  have c1: "consistent H ?m1" by (rule consistent_del [OF con])
  have st1: "\<forall>x\<in>set ?ss. ?th ` nodesOf x \<subseteq> dom ?m1"
    using pruned_store [OF inj nz wf st, of _ ?p, unfolded f] by blast
  from add_finish_tree [OF inj c1 st1 insert_at_empty(1) [OF vp wf f], of v]
  obtain s' where s': "add_finish H s ?m1 key v ?p (map ?th ?ss) = Ok s'"
    "bigNumbers s' = bigNumbers s" "represents H s' (plug ?p 0 ?ss (Leaf key v))" by blast
  note D = deleteOldNodes_tree [where ss = ?ss and H = H and m = "nodes s" and z = ?z
      and mk = ?mk and u = Empty and p = ?p, unfolded th.simps]
  have "add H s key v = Ok s'"
  proof (cases "?ss = []")
    case True
    with s'(1) show ?thesis
      unfolding add_def retrieveEntry_tree [OF H R vp] validKey_checkParameterType [OF k] v
      by (simp add: f matchingEntry_response at_def Let_def)
  next
    case False
    with s'(1) show ?thesis
      unfolding add_def retrieveEntry_tree [OF H R vp] validKey_checkParameterType [OF k] v
      by (simp add: f matchingEntry_response at_def Let_def D)
  qed
  with s' show ?thesis by blast
qed

lemma add_existing:
  assumes H: "hashOk H" and R: "represents H s t" and k: "validKey (bigNumbers s) key"
    and v: "checkParameterType s v = None" and f: "focus (keyToPath key) 0 t = Leaf key w"
  shows "add H s key v = Throw KeyAlreadyExists s"
  unfolding add_def retrieveEntry_tree [OF H R validKey_validPath [OF k]]
    validKey_checkParameterType [OF k] v
  by (simp add: f matchingEntry_response at_def)

lemma add_at_leaf:
  assumes H: "hashOk H" and R: "represents H s t" and k: "validKey (bigNumbers s) key"
    and v: "checkParameterType s v = None" and f: "focus (keyToPath key) 0 t = Leaf k' v'"
    and ne: "k' \<noteq> key"
  shows "(keyToPath k' = keyToPath key \<longrightarrow>
      add H s key v = Throw RangeError (s\<lparr>nodes :=
        (\<lambda>h. if h \<in> th H (zeroNode s) (entryMark s) `
                   onpath (keyToPath key) 0 (sides (keyToPath key) 0 t) (Leaf k' v')
              then None else nodes s h)\<rparr>)) \<and>
    (keyToPath k' \<noteq> keyToPath key \<longrightarrow>
      (\<exists>s' t'. add H s key v = Ok s' \<and> bigNumbers s' = bigNumbers s \<and>
          represents H s' t' \<and> entries t' = insert (key, v) (entries t)))"
proof -
  let ?p = "keyToPath key" let ?q = "keyToPath k'" let ?ss = "sides ?p 0 t"
  let ?z = "zeroNode s" let ?mk = "entryMark s" let ?th = "th H ?z ?mk"
  let ?e = "length ?ss"
  let ?m1 = "\<lambda>h. if h \<in> ?th ` onpath ?p 0 ?ss (Leaf k' v') then None else nodes s h"
  note vp = validKey_validPath [OF k]
  note inj = hashOk_inj [OF H] and nz = hashOk_zero [OF H, of s]
  from R have wf: "wf 0 t" and con: "consistent H (nodes s)"
    and st: "?th ` nodesOf t \<subseteq> dom (nodes s)" by (simp_all add: represents_def)
  note C = wf_context [OF wf, of ?p, simplified]
  note PS = pruned_store [OF inj nz wf st, where p = ?p, unfolded f]
  from C(2) f have vq: "validPath ?q" by simp
  have c1: "consistent H ?m1" by (rule consistent_del [OF con])
  note D = deleteOldNodes_tree [where ss = ?ss and H = H and m = "nodes s" and z = ?z
      and mk = ?mk and u = "Leaf k' v'" and p = ?p, unfolded th.simps]
  have addeq: "add H s key v =
      (case extendSiblings ?q ?p ?z ?e (map ?th ?ss) of
         Inl e \<Rightarrow> Throw e (s\<lparr>nodes := ?m1\<rparr>)
       | Inr sibs1 \<Rightarrow>
           (case push sibs1 (H [k', v', ?mk]) of
              Inl e \<Rightarrow> Throw e (s\<lparr>nodes := ?m1\<rparr>)
            | Inr sibs2 \<Rightarrow> add_finish H s ?m1 key v ?p sibs2))"
  proof (cases "?ss = []")
    case True
    with ne show ?thesis
      unfolding add_def retrieveEntry_tree [OF H R vp] validKey_checkParameterType [OF k] v
      by (simp add: f matchingEntry_response at_def Let_def cong: sum.case_cong)
  next
    case False
    with ne show ?thesis
      unfolding add_def retrieveEntry_tree [OF H R vp] validKey_checkParameterType [OF k] v
      by (simp add: f matchingEntry_response at_def Let_def D cong: sum.case_cong)
  qed
  have agree0: "\<forall>j<?e. ?q ! j = ?p ! j"
  proof (intro allI impI)
    fix j assume j: "j < ?e"
    with C(5) have "j < 256" by simp
    with C(3) f j show "?q ! j = ?p ! j" by (simp add: dir_valid [OF vp])
  qed
  show ?thesis
  proof (intro conjI impI)
    assume eq: "?q = ?p"
    have "\<forall>j. strictEqU (at ?q j) (at ?p j)"
      using eq strictEqU_valid [OF vp vp] by simp
    then have "extendSiblings ?q ?p ?z ?e (map ?th ?ss) = Inl RangeError"
      by (rule extendSiblings_equal_paths)
    then show "add H s key v = Throw RangeError (s\<lparr>nodes := ?m1\<rparr>)"
      unfolding addeq by simp
  next
    assume neq: "?q \<noteq> ?p"
    from vq vp have "length ?q = length ?p" by (simp add: validPath_def)
    with neq obtain j0 where j0: "j0 < 256" "?q ! j0 \<noteq> ?p ! j0"
      using vp by (auto simp: list_eq_iff_nth_eq validPath_def)
    with agree0 have "?e \<le> j0" by (metis not_le_imp_less)
    then obtain n0 where n0: "j0 = ?e + n0" by (metis le_Suc_ex)
    with j0 have "\<not> strictEqU (at ?q (?e + n0)) (at ?p (?e + n0))"
      by (simp add: strictEqU_valid [OF vq vp])
    moreover from j0(1) n0 have "length (map ?th ?ss) + n0 \<le> maxArrayLength"
      by (simp add: maxArrayLength_def)
    ultimately obtain r where
      r: "extendSiblings ?q ?p ?z ?e (map ?th ?ss) = Inr r"
      using extendSiblings_terminates [of ?q ?e n0 ?p "map ?th ?ss" ?z] by blast
    from extendSiblings_result [OF this] obtain n where
      n: "r = map ?th ?ss @ replicate n ?z"
        "\<not> strictEqU (at ?q (?e + n)) (at ?p (?e + n))"
        "\<forall>l<n. strictEqU (at ?q (?e + l)) (at ?p (?e + l))" by blast
    from n(2) have lt: "?e + n < 256" and differ: "?q ! (?e + n) \<noteq> ?p ! (?e + n)"
      by (auto simp: strictEqU_valid [OF vq vp])
    have agree: "\<forall>j<n. ?q ! (?e + j) = ?p ! (?e + j)"
      using n(3) lt by (auto simp: strictEqU_valid [OF vq vp])
    let ?ss2 = "?ss @ replicate n Empty @ [Leaf k' v']"
    let ?t' = "plug ?p 0 ?ss2 (Leaf key v)"
    note I = insert_at_leaf [OF vp wf f lt agree differ, of v]
    have sb2: "r @ [H [k', v', ?mk]] = map ?th ?ss2" by (simp add: n(1))
    have pu: "push r (H [k', v', ?mk]) = Inr (r @ [H [k', v', ?mk]])"
      using lt by (simp add: push_def n(1) maxArrayLength_def)
    have st1: "\<forall>x\<in>set ?ss2. ?th ` nodesOf x \<subseteq> dom ?m1"
    proof
      fix x assume "x \<in> set ?ss2"
      then consider "x \<in> set ?ss" | "x = Empty" | "x = Leaf k' v'" by auto
      then show "?th ` nodesOf x \<subseteq> dom ?m1"
      proof cases
        case 1
        then show ?thesis using PS [of x] by blast
      next
        case 2
        then show ?thesis by simp
      next
        case 3
        then show ?thesis using PS [of x] by blast
      qed
    qed
    from add_finish_tree [OF inj c1 st1 I(1)] obtain s' where
      s': "add_finish H s ?m1 key v ?p (map ?th ?ss2) = Ok s'"
        "bigNumbers s' = bigNumbers s" "represents H s' ?t'" by blast
    have "add H s key v = Ok s'"
      unfolding addeq r using s'(1) sb2 pu by simp
    with s' I(2) show "\<exists>s' t'. add H s key v = Ok s' \<and>
        bigNumbers s' = bigNumbers s \<and> represents H s' t' \<and>
        entries t' = insert (key, v) (entries t)" by blast
  qed
qed

text \<open>A successful \<open>add\<close> inserts the entry, and the key was not there before.\<close>

lemma add_represents:
  assumes H: "hashOk H" and R: "represents H s t" and k: "validKey (bigNumbers s) key"
    and ok: "add H s key v = Ok s'"
  shows "\<exists>t'. represents H s' t' \<and> bigNumbers s' = bigNumbers s \<and>
           entries t' = insert (key, v) (entries t) \<and> key \<notin> keys t"
proof -
  note vp = validKey_validPath [OF k]
  from R have wf: "wf 0 t" by (simp add: represents_def)
  have v: "checkParameterType s v = None"
  proof (rule ccontr)
    assume "checkParameterType s v \<noteq> None"
    then obtain e where "checkParameterType s v = Some e" by auto
    then have "add H s key v = Throw e s"
      by (simp add: add_def validKey_checkParameterType [OF k])
    with ok show False by simp
  qed
  show ?thesis
  proof (cases "focus (keyToPath key) 0 t")
    case Empty
    from add_at_empty [OF H R k v Empty] ok insert_at_empty(2) [OF vp wf Empty, of v]
      focus_Empty_key [OF vp wf Empty]
    show ?thesis by auto
  next
    case (Leaf k' v')
    show ?thesis
    proof (cases "k' = key")
      case True
      with add_existing [OF H R k v] Leaf ok show ?thesis by simp
    next
      case False
      from add_at_leaf [OF H R k v Leaf False] ok focus_other_key [OF vp wf Leaf False]
      show ?thesis by (cases "keyToPath k' = keyToPath key") auto
    qed
  next
    case (Node l r)
    with focus_not_Node [of "keyToPath key" 0 t] show ?thesis by simp
  qed
qed

text \<open>\<open>add\<close> succeeds for a valid key whose path is not taken.\<close>

lemma add_succeeds:
  assumes H: "hashOk H" and R: "represents H s t" and k: "validKey (bigNumbers s) key"
    and v: "checkParameterType s v = None"
    and fresh: "\<forall>k'\<in>keys t. keyToPath k' \<noteq> keyToPath key"
  shows "\<exists>s'. add H s key v = Ok s'"
proof (cases "focus (keyToPath key) 0 t")
  case Empty
  from add_at_empty [OF H R k v Empty] show ?thesis by blast
next
  case (Leaf k' v')
  then have "k' \<in> keys t" using focus_Leaf_entries [OF Leaf] by (force simp: keys_entries)
  with fresh have "keyToPath k' \<noteq> keyToPath key" by blast
  moreover from this have "k' \<noteq> key" by auto
  ultimately show ?thesis using add_at_leaf [OF H R k v Leaf] by blast
next
  case (Node l r)
  with focus_not_Node [of "keyToPath key" 0 t] show ?thesis by simp
qed

lemma get_tree:
  assumes "hashOk H" and "represents H s t" and "validKey (bigNumbers s) key"
  shows "get s key
    = Inr (case focus (keyToPath key) 0 t of
             Leaf k v \<Rightarrow> if k = key then Some v else None
           | _ \<Rightarrow> None)"
  unfolding get_def retrieveEntry_tree [OF assms(1,2) validKey_validPath [OF assms(3)]]
    validKey_checkParameterType [OF assms(3)]
  by (simp add: matchingEntry_response at_def split: tree.splits)

lemma get_present:
  assumes "hashOk H" and "represents H s t" and "validKey (bigNumbers s) key"
    and "(key, v) \<in> entries t"
  shows "get s key = Inr (Some v)"
proof -
  from assms(2) have wf: "wf 0 t" by (simp add: represents_def)
  from entries_focus [OF validKey_validPath [OF assms(3)] wf assms(4)]
  show ?thesis unfolding get_tree [OF assms(1-3)] by simp
qed

section \<open>Update and delete on represented trees\<close>

text \<open>The store after the leaf of the key and the old nodes of its path are deleted
  still holds every node of the siblings.\<close>

lemma pruned_store_leaf:
  assumes "inj H" and "\<forall>xs. H xs \<noteq> z" and "wf 0 t"
    and "th H z mk ` nodesOf t \<subseteq> dom m" and vp: "validPath (keyToPath key)"
    and f: "focus (keyToPath key) 0 t = Leaf key w"
    and x: "x \<in> set (sides (keyToPath key) 0 t)" and u: "u \<in> nodesOf x"
  shows "th H z mk u
    \<in> dom (\<lambda>h. if h \<in> th H z mk ` onpath (keyToPath key) 0 (sides (keyToPath key) 0 t)
                        (Leaf key w)
                 then None else (m(H [key, w, mk] := None)) h)"
proof -
  let ?p = "keyToPath key"
  note C = wf_context [OF assms(3), of ?p, simplified]
  from pruned_store [OF assms(1-4), of x ?p u] x u
  have 1: "th H z mk u
      \<in> dom (\<lambda>h. if h \<in> th H z mk ` onpath ?p 0 (sides ?p 0 t) (Leaf key w) then None else m h)"
    unfolding f by blast
  have "key \<notin> keys x" by (rule key_not_in_sides [OF vp C(1) x])
  with nodesOf_keys [OF u] have "u \<noteq> Leaf key w" by auto
  then have "th H z mk u \<noteq> th H z mk (Leaf key w)"
    using th_inj [OF assms(1,2)] by blast
  then have "th H z mk u \<noteq> H [key, w, mk]" by simp
  with 1 show ?thesis by (auto simp: dom_def split: if_splits)
qed

text \<open>Rebuilding a path by \<open>addNewNodes\<close> from a stored subtree.\<close>

lemma addNewNodes_represents:
  assumes "inj H" and "consistent H m" and c: "c \<le> length ss"
    and "\<forall>x\<in>set (take c ss). th H (zeroNode s) (entryMark s) ` nodesOf x \<subseteq> dom m"
    and "th H (zeroNode s) (entryMark s) ` nodesOf u \<subseteq> dom m"
    and "wf 0 (plug p 0 (take c ss) u)"
  shows "\<exists>m' rt. addNewNodes H m (th H (zeroNode s) (entryMark s) u) p
                    (map (th H (zeroNode s) (entryMark s)) ss) (int c - 1) = (m', rt) \<and>
           represents H (s\<lparr>nodes := m', root := rt\<rparr>) (plug p 0 (take c ss) u)"
proof -
  let ?th = "th H (zeroNode s) (entryMark s)"
  let ?r = "addNewNodes H m (?th u) p (map ?th ss) (int c - 1)"
  have n: "nat (int c - 1 + 1) = c" by simp
  have "nat (int c - 1 + 1) \<le> length ss" using c by simp
  note A = addNewNodes_tree [OF assms(2) _ this, of "zeroNode s" "entryMark s" u p, unfolded n]
  have A1: "snd ?r = ?th (plug p 0 (take c ss) u)" using A(1) by simp
  have A2: "consistent H (fst ?r)" using A(2) by simp
  have A3: "dom (fst ?r) = dom m \<union> ?th ` onpath p 0 (take c ss) u" using A(3) by simp
  have "?th ` nodesOf (plug p 0 (take c ss) u) \<subseteq> dom (fst ?r)"
    unfolding nodesOf_plug A3 using assms(4,5) by auto
  then have "represents H (s\<lparr>nodes := fst ?r, root := snd ?r\<rparr>) (plug p 0 (take c ss) u)"
    using assms(6) A1 A2 by (simp add: represents_def)
  then show ?thesis by (intro exI [of _ "fst ?r"] exI [of _ "snd ?r"]) simp
qed

lemma update_present:
  assumes H: "hashOk H" and R: "represents H s t" and k: "validKey (bigNumbers s) key"
    and v: "checkParameterType s v = None" and f: "focus (keyToPath key) 0 t = Leaf key w"
  shows "\<exists>s' t'. update H s key v = Ok s' \<and> bigNumbers s' = bigNumbers s \<and>
      represents H s' t' \<and> entries t' = insert (key, v) (entries t - {(key, w)})"
proof -
  let ?p = "keyToPath key" let ?ss = "sides ?p 0 t"
  let ?z = "zeroNode s" let ?mk = "entryMark s" let ?th = "th H ?z ?mk"
  let ?m0 = "(nodes s)(H [key, w, ?mk] := None)"
  let ?m1 = "\<lambda>h. if h \<in> ?th ` onpath ?p 0 ?ss (Leaf key w) then None else ?m0 h"
  note vp = validKey_validPath [OF k]
  note inj = hashOk_inj [OF H] and nz = hashOk_zero [OF H, of s]
  from R have wf: "wf 0 t" and con: "consistent H (nodes s)"
    and st: "?th ` nodesOf t \<subseteq> dom (nodes s)" by (simp_all add: represents_def)
  have c1: "consistent H ?m1" by (rule consistent_del [OF consistent_del1 [OF con]])
  have st1: "\<forall>x\<in>set ?ss. ?th ` nodesOf x \<subseteq> dom ?m1"
    using pruned_store_leaf [OF inj nz wf st vp f] by blast
  note U = replace_leaf [OF vp wf f, of v]
  from add_finish_tree [OF inj c1 st1 U(1)]
  obtain s' where s': "add_finish H s ?m1 key v ?p (map ?th ?ss) = Ok s'"
    "bigNumbers s' = bigNumbers s" "represents H s' (plug ?p 0 ?ss (Leaf key v))" by blast
  note D = deleteOldNodes_tree [where ss = ?ss and H = H and m = ?m0 and z = ?z
      and mk = ?mk and u = "Leaf key w" and p = ?p, unfolded th.simps]
  have "update H s key v = Ok s'"
    unfolding update_def retrieveEntry_tree [OF H R vp] validKey_checkParameterType [OF k] v
    using s'(1)
    by (simp add: f matchingEntry_response at_def Let_def D add_finish_def)
  with s' U(2) show ?thesis by blast
qed

lemma update_absent:
  assumes H: "hashOk H" and R: "represents H s t" and k: "validKey (bigNumbers s) key"
    and f: "\<forall>w. focus (keyToPath key) 0 t \<noteq> Leaf key w"
  shows "\<exists>e. update H s key v = Throw e s"
  unfolding update_def retrieveEntry_tree [OF H R validKey_validPath [OF k]]
    validKey_checkParameterType [OF k]
  using f
  by (cases "focus (keyToPath key) 0 t")
     (auto simp: matchingEntry_response at_def split: option.splits)

lemma update_represents:
  assumes H: "hashOk H" and R: "represents H s t" and k: "validKey (bigNumbers s) key"
    and ok: "update H s key v = Ok s'"
  shows "\<exists>t' w. represents H s' t' \<and> bigNumbers s' = bigNumbers s \<and>
           (key, w) \<in> entries t \<and> entries t' = insert (key, v) (entries t - {(key, w)})"
proof (cases "\<exists>w. focus (keyToPath key) 0 t = Leaf key w")
  case False
  with update_absent [OF H R k, of v] ok show ?thesis by auto
next
  case True
  then obtain w where f: "focus (keyToPath key) 0 t = Leaf key w" by blast
  have v: "checkParameterType s v = None"
  proof (rule ccontr)
    assume "checkParameterType s v \<noteq> None"
    then obtain e where "checkParameterType s v = Some e" by auto
    then have "update H s key v = Throw e s"
      by (simp add: update_def validKey_checkParameterType [OF k])
    with ok show False by simp
  qed
  from update_present [OF H R k v f] ok focus_Leaf_entries [OF f] show ?thesis by auto
qed

text \<open>The index of the last non-zero element.\<close>

lemma getIndexOfLastNonZeroElement_loop_props:
  "n \<le> length arr \<Longrightarrow>
   nat (getIndexOfLastNonZeroElement_loop arr n + 1) \<le> n \<and>
   - 1 \<le> getIndexOfLastNonZeroElement_loop arr n \<and>
   (0 \<le> getIndexOfLastNonZeroElement_loop arr n \<longrightarrow>
      \<not> isZeroNumber (arr ! nat (getIndexOfLastNonZeroElement_loop arr n))) \<and>
   (\<forall>j. nat (getIndexOfLastNonZeroElement_loop arr n + 1) \<le> j \<and> j < n
      \<longrightarrow> isZeroNumber (arr ! j))"
proof (induction n)
  case 0
  then show ?case by simp
next
  case (Suc n)
  show ?case
  proof (cases "isZeroNumber (arr ! n)")
    case False
    have "nat (int n + 1) = Suc n" by simp
    with False show ?thesis by (auto simp del: of_nat_Suc)
  next
    case True
    with Suc have IH: "nat (getIndexOfLastNonZeroElement_loop arr n + 1) \<le> n"
      "- 1 \<le> getIndexOfLastNonZeroElement_loop arr n"
      "0 \<le> getIndexOfLastNonZeroElement_loop arr n \<longrightarrow>
         \<not> isZeroNumber (arr ! nat (getIndexOfLastNonZeroElement_loop arr n))"
      "\<forall>j. nat (getIndexOfLastNonZeroElement_loop arr n + 1) \<le> j \<and> j < n
         \<longrightarrow> isZeroNumber (arr ! j)"
      by simp_all
    have "\<forall>j. nat (getIndexOfLastNonZeroElement_loop arr n + 1) \<le> j \<and> j < Suc n
         \<longrightarrow> isZeroNumber (arr ! j)"
      using IH(4) True by (auto simp: less_Suc_eq)
    with IH(1-3) True show ?thesis by simp
  qed
qed

lemma isZeroNumber_th:
  assumes "hashOk H"
  shows "isZeroNumber (th H (zeroNode s) mk x) \<longleftrightarrow> x = Empty"
  using assms by (cases x) (auto simp: hashOk_def)

lemma delete_present:
  assumes H: "hashOk H" and R: "represents H s t" and k: "validKey (bigNumbers s) key"
    and f: "focus (keyToPath key) 0 t = Leaf key w"
  shows "\<exists>s' t'. delete H s key = Ok s' \<and> bigNumbers s' = bigNumbers s \<and>
      represents H s' t' \<and> entries t' = entries t - {(key, w)}"
proof -
  let ?p = "keyToPath key" let ?ss = "sides ?p 0 t"
  let ?z = "zeroNode s" let ?mk = "entryMark s" let ?th = "th H ?z ?mk"
  let ?m0 = "(nodes s)(H [key, w, ?mk] := None)"
  let ?m1 = "\<lambda>h. if h \<in> ?th ` onpath ?p 0 ?ss (Leaf key w) then None else ?m0 h"
  note vp = validKey_validPath [OF k]
  note inj = hashOk_inj [OF H] and nz = hashOk_zero [OF H, of s]
  from R have wf: "wf 0 t" and con: "consistent H (nodes s)"
    and st: "?th ` nodesOf t \<subseteq> dom (nodes s)" by (simp_all add: represents_def)
  note C = wf_context [OF wf, of ?p, simplified]
  have c0: "consistent H ?m0" by (rule consistent_del1 [OF con])
  have c1: "consistent H ?m1" by (rule consistent_del [OF c0])
  have st1: "\<And>x. x \<in> set ?ss \<Longrightarrow> ?th ` nodesOf x \<subseteq> dom ?m1"
    using pruned_store_leaf [OF inj nz wf st vp f] by blast
  note D = deleteOldNodes_tree [where ss = ?ss and H = H and m = ?m0 and z = ?z
      and mk = ?mk and u = "Leaf key w" and p = ?p, unfolded th.simps]
  have del: "delete H s key =
      (if ?ss \<noteq> [] then
         (if \<not> isLeaf ?m1 (last (map ?th ?ss)) then
            (case addNewNodes H ?m1 ?z ?p (map ?th ?ss) (int (length ?ss) - 1) of
               (m3, rt) \<Rightarrow> Ok (s\<lparr>nodes := m3, root := rt\<rparr>))
          else
            (case addNewNodes H ?m1 (last (map ?th ?ss)) ?p (butlast (map ?th ?ss))
                    (getIndexOfLastNonZeroElement (butlast (map ?th ?ss))) of
               (m3, rt) \<Rightarrow> Ok (s\<lparr>nodes := m3, root := rt\<rparr>)))
       else Ok (s\<lparr>nodes := ?m0, root := ?z\<rparr>))"
    unfolding delete_def retrieveEntry_tree [OF H R vp] validKey_checkParameterType [OF k]
    by (simp add: f matchingEntry_response at_def Let_def D)
  show ?thesis
  proof (cases "?ss = []")
    case True
    with remove_only_leaf [OF f] have t: "t = Leaf key w" by simp
    have "represents H (s\<lparr>nodes := ?m0, root := ?z\<rparr>) Empty"
      using c0 by (simp add: represents_def)
    moreover have "entries Empty = entries t - {(key, w)}" using t by simp
    ultimately show ?thesis unfolding del using True
      by (intro exI [of _ "s\<lparr>nodes := ?m0, root := ?z\<rparr>"] exI [of _ Empty]) simp
  next
    case False
    define x where "x = last ?ss"
    from False have xin: "x \<in> set ?ss" by (simp add: x_def)
    from False have lx: "last (map ?th ?ss) = ?th x" by (simp add: x_def last_map)
    from C(4) False f have xne: "x \<noteq> Empty" by (simp add: x_def)
    then have "x \<in> nodesOf x" by (rule nodesOf_self)
    with st1 [OF xin] have "?th x \<in> dom ?m1" by blast
    from stored_lookup [OF c1 inj xne this] have look: "?m1 (?th x) = Some (cn H ?z ?mk x)" .
    have leaf: "isLeaf ?m1 (?th x) \<longleftrightarrow> \<not> isNode x"
      unfolding isLeaf_def look using xne by (cases x) simp_all
    show ?thesis
    proof (cases "isNode x")
      case True
      note K = remove_leaf_keep [OF vp wf f False True [unfolded x_def]]
      have "\<forall>y\<in>set (take (length ?ss) ?ss). ?th ` nodesOf y \<subseteq> dom ?m1"
        using st1 by simp
      from addNewNodes_represents [OF inj c1 le_refl this, of Empty ?p] K(1)
      obtain m' rt where a: "addNewNodes H ?m1 ?z ?p (map ?th ?ss) (int (length ?ss) - 1)
          = (m', rt)"
        and r: "represents H (s\<lparr>nodes := m', root := rt\<rparr>) (plug ?p 0 ?ss Empty)"
        by auto
      have "delete H s key = Ok (s\<lparr>nodes := m', root := rt\<rparr>)"
        unfolding del lx using False True leaf a by simp
      with r K(2) show ?thesis
        by (intro exI [of _ "s\<lparr>nodes := m', root := rt\<rparr>"]
            exI [of _ "plug ?p 0 ?ss Empty"]) simp
    next
      case nn: False
      with xne obtain k' v' where xl: "x = Leaf k' v'" by (cases x) auto
      define ss' where "ss' = butlast ?ss"
      have "?ss = butlast ?ss @ [last ?ss]" using False by simp
      then have ss: "?ss = ss' @ [Leaf k' v']"
        unfolding ss'_def x_def [symmetric] xl .
      have bl: "butlast (map ?th ?ss) = map ?th ss'" by (simp add: ss'_def map_butlast)
      define i where "i = getIndexOfLastNonZeroElement (map ?th ss')"
      define c where "c = nat (i + 1)"
      have gi: "getIndexOfLastNonZeroElement_loop (map ?th ss') (length (map ?th ss')) = i"
        by (simp add: i_def getIndexOfLastNonZeroElement_def)
      have G: "nat (i + 1) \<le> length ss'" "- 1 \<le> i"
        "0 \<le> i \<longrightarrow> \<not> isZeroNumber (map ?th ss' ! nat i)"
        "\<forall>j. nat (i + 1) \<le> j \<and> j < length ss' \<longrightarrow> isZeroNumber (map ?th ss' ! j)"
        using getIndexOfLastNonZeroElement_loop_props [of "length (map ?th ss')" "map ?th ss'",
            unfolded gi] by simp_all
      have c_le: "c \<le> length ss'" using G(1) by (simp add: c_def)
      have ic: "i = int c - 1" using G(2) by (simp add: c_def)
      have lastc: "c \<noteq> 0 \<longrightarrow> ss' ! (c - 1) \<noteq> Empty"
      proof
        assume c0: "c \<noteq> 0"
        then have i0: "0 \<le> i" and ni: "nat i = c - 1" by (simp_all add: c_def)
        with c0 c_le have "nat i < length ss'" by simp
        with G(3) i0 have "\<not> isZeroNumber (?th (ss' ! nat i))" by simp
        then show "ss' ! (c - 1) \<noteq> Empty"
          unfolding isZeroNumber_th [OF H] ni .
      qed
      have zeros: "\<forall>j. c \<le> j \<and> j < length ss' \<longrightarrow> ss' ! j = Empty"
      proof (intro allI impI)
        fix j assume j: "c \<le> j \<and> j < length ss'"
        with G(4) have "isZeroNumber (map ?th ss' ! j)" by (simp add: c_def)
        with j show "ss' ! j = Empty" by (simp add: isZeroNumber_th [OF H])
      qed
      note K = remove_leaf_collapse [OF vp wf f ss c_le lastc zeros]
      have sub: "set (take c ss') \<subseteq> set ?ss"
        unfolding ss by (auto dest: in_set_takeD)
      have s1: "\<forall>y\<in>set (take c ss'). ?th ` nodesOf y \<subseteq> dom ?m1"
        using st1 sub by blast
      have s2: "?th ` nodesOf (Leaf k' v') \<subseteq> dom ?m1"
        using st1 [OF xin] xl by simp
      from addNewNodes_represents [OF inj c1 c_le s1 s2 K(1)]
      obtain m' rt where a: "addNewNodes H ?m1 (?th (Leaf k' v')) ?p (map ?th ss') (int c - 1)
          = (m', rt)"
        and r: "represents H (s\<lparr>nodes := m', root := rt\<rparr>)
                  (plug ?p 0 (take c ss') (Leaf k' v'))"
        by auto
      have "delete H s key = Ok (s\<lparr>nodes := m', root := rt\<rparr>)"
        unfolding del lx bl i_def [symmetric] ic
        using False nn leaf a xl by simp
      with r K(2) show ?thesis
        by (intro exI [of _ "s\<lparr>nodes := m', root := rt\<rparr>"]
            exI [of _ "plug ?p 0 (take c ss') (Leaf k' v')"]) simp
    qed
  qed
qed

lemma delete_absent:
  assumes H: "hashOk H" and R: "represents H s t" and k: "validKey (bigNumbers s) key"
    and f: "\<forall>w. focus (keyToPath key) 0 t \<noteq> Leaf key w"
  shows "delete H s key = Throw KeyNotFound s"
  unfolding delete_def retrieveEntry_tree [OF H R validKey_validPath [OF k]]
    validKey_checkParameterType [OF k]
  using f
  by (cases "focus (keyToPath key) 0 t") (auto simp: matchingEntry_response at_def)

lemma delete_represents:
  assumes H: "hashOk H" and R: "represents H s t" and k: "validKey (bigNumbers s) key"
    and ok: "delete H s key = Ok s'"
  shows "\<exists>t' w. represents H s' t' \<and> bigNumbers s' = bigNumbers s \<and>
           (key, w) \<in> entries t \<and> entries t' = entries t - {(key, w)}"
proof (cases "\<exists>w. focus (keyToPath key) 0 t = Leaf key w")
  case False
  with delete_absent [OF H R k] ok show ?thesis by auto
next
  case True
  then obtain w where f: "focus (keyToPath key) 0 t = Leaf key w" by blast
  from delete_present [OF H R k f] ok focus_Leaf_entries [OF f] show ?thesis by auto
qed

section \<open>Reachable objects represent well-formed trees\<close>

lemma new_SMT_emptySMT: "new_SMT H b = Inr s \<Longrightarrow> s = emptySMT b"
  by (auto simp: new_SMT_def emptySMT_def split: if_splits val.splits)

lemma params_of_bigNumbers:
  "bigNumbers s' = bigNumbers s \<Longrightarrow> zeroNode s' = zeroNode s \<and> entryMark s' = entryMark s"
  by (simp add: zeroNode_def entryMark_def)

lemma represents_emptySMT: "represents H (emptySMT b) Empty"
  by (simp add: represents_def emptySMT_def zeroNode_def consistent_def)

lemma graph_upd_fresh:
  "M key = None \<Longrightarrow>
   {(k, x). (M(key \<mapsto> v)) k = Some x} = insert (key, v) {(k, x). M k = Some x}"
  by (auto split: if_splits)

lemma graph_upd:
  "M key = Some w \<Longrightarrow>
   {(k, x). (M(key \<mapsto> v)) k = Some x}
     = insert (key, v) ({(k, x). M k = Some x} - {(key, w)})"
  by (auto split: if_splits)

lemma graph_del:
  "M key = Some w \<Longrightarrow>
   {(k, x). (M(key := None)) k = Some x} = {(k, x). M k = Some x} - {(key, w)}"
  by (auto split: if_splits)

lemma reach_represents:
  assumes "hashOk H" and "reach H b s M"
  shows "\<exists>t. represents H s t \<and> bigNumbers s = b \<and> entries t = {(k, v). M k = Some v}"
  using assms(2)
proof (induction rule: reach.induct)
  case reach_new
  have "represents H (emptySMT b) Empty \<and> bigNumbers (emptySMT b) = b \<and>
      entries Empty = {(k, v). Map.empty k = Some v}"
    by (simp add: represents_emptySMT) (simp add: emptySMT_def)
  then show ?case by blast
next
  case (reach_add s M key v s')
  then obtain t where t: "represents H s t" "bigNumbers s = b"
    "entries t = {(k, v). M k = Some v}" by blast
  from reach_add.hyps(2) t(2) have k: "validKey (bigNumbers s) key" by simp
  from add_represents [OF assms(1) t(1) k reach_add.hyps(3)] obtain t' where
    t': "represents H s' t'" "bigNumbers s' = bigNumbers s"
    "entries t' = insert (key, v) (entries t)" "key \<notin> keys t" by blast
  from t'(4) t(3) have "M key = None"
    by (cases "M key") (force simp: keys_entries)+
  from graph_upd_fresh [where M = M and key = key and v = v, OF this] t'(3) t(3)
  have "entries t' = {(k, x). (M(key \<mapsto> v)) k = Some x}" by simp
  with t'(1,2) t(2) show ?case by auto
next
  case (reach_update s M key v s')
  then obtain t where t: "represents H s t" "bigNumbers s = b"
    "entries t = {(k, v). M k = Some v}" by blast
  from reach_update.hyps(2) t(2) have k: "validKey (bigNumbers s) key" by simp
  from update_represents [OF assms(1) t(1) k reach_update.hyps(3)] obtain t' w where
    t': "represents H s' t'" "bigNumbers s' = bigNumbers s" "(key, w) \<in> entries t"
    "entries t' = insert (key, v) (entries t - {(key, w)})" by blast
  from t'(3) t(3) have "M key = Some w" by simp
  from graph_upd [where M = M and key = key and v = v, OF this] t'(4) t(3)
  have "entries t' = {(k, x). (M(key \<mapsto> v)) k = Some x}" by simp
  with t'(1,2) t(2) show ?case by auto
next
  case (reach_delete s M key s')
  then obtain t where t: "represents H s t" "bigNumbers s = b"
    "entries t = {(k, v). M k = Some v}" by blast
  from reach_delete.hyps(2) t(2) have k: "validKey (bigNumbers s) key" by simp
  from delete_represents [OF assms(1) t(1) k reach_delete.hyps(3)] obtain t' w where
    t': "represents H s' t'" "bigNumbers s' = bigNumbers s" "(key, w) \<in> entries t"
    "entries t' = entries t - {(key, w)}" by blast
  from t'(3) t(3) have "M key = Some w" by simp
  from graph_del [where M = M and key = key, OF this] t'(4) t(3)
  have "entries t' = {(k, x). (M(key := None)) k = Some x}" by simp
  with t'(1,2) t(2) show ?case by auto
qed

section \<open>The example hash function\<close>

lemma encodeVal_inj: "encodeVal v = encodeVal w \<Longrightarrow> v = w"
proof (cases v; cases w)
  fix k k' assume "v = Big k" "w = Big k'" "encodeVal v = encodeVal w"
  then show ?thesis by (simp add: encodeVal_def int_encode_eq)
next
  fix x y assume v: "v = Str x" "w = Str y" and e: "encodeVal v = encodeVal w"
  then have "list_encode (map of_char x) = list_encode (map of_char y)"
    by (simp add: encodeVal_def)
  then have "map (of_char :: char \<Rightarrow> nat) x = map of_char y" by (simp add: list_encode_eq)
  moreover have "inj (of_char :: char \<Rightarrow> nat)" by (rule injI) simp
  ultimately have "x = y" by (simp only: inj_map_eq_map)
  with v show ?thesis by simp
next
  fix k y assume "v = Big k" "w = Str y" "encodeVal v = encodeVal w"
  then show ?thesis by (simp add: encodeVal_def) presburger
next
  fix x k assume "v = Str x" "w = Big k" "encodeVal v = encodeVal w"
  then show ?thesis by (simp add: encodeVal_def) presburger
qed

lemma hashOk_exampleHash: "hashOk exampleHash"
proof -
  have "inj encodeVal" by (rule injI) (rule encodeVal_inj)
  then have "inj (map encodeVal)" by simp
  then have "inj exampleHash"
    unfolding exampleHash_def by (auto intro!: injI simp: list_encode_eq dest: injD)
  then show ?thesis by (simp add: hashOk_def exampleHash_def)
qed

section \<open>Proofs of membership and of non-membership\<close>

lemma sharedLeadingBits_ge:
  assumes "n \<le> length p" and "n \<le> length q" and "\<forall>j<n. strictEq (p ! j) (q ! j)"
  shows "n \<le> sharedLeadingBits p q"
proof (rule ccontr)
  let ?P = "\<lambda>(a, b). strictEq a b"
  let ?m = "length (takeWhile ?P (zip p q))"
  assume "\<not> n \<le> sharedLeadingBits p q"
  then have m: "?m < n" by (simp add: sharedLeadingBits_def)
  with assms(1,2) have "?m < length (zip p q)" by simp
  then have "\<not> ?P (zip p q ! ?m)" by (rule nth_length_takeWhile)
  moreover from m assms(1,2) have "zip p q ! ?m = (p ! ?m, q ! ?m)" by simp
  ultimately have "\<not> strictEq (p ! ?m) (q ! ?m)" by simp
  with assms(3) m show False by blast
qed

lemma createProof_present:
  assumes H: "hashOk H" and R: "represents H s t" and k: "validKey (bigNumbers s) key"
    and e: "(key, v) \<in> entries t"
  shows "\<exists>p. createProof s key = Inr p \<and> membership p = truthy v \<and>
           proofRoot p = root s \<and> entry p = [key, v, entryMark s] \<and>
           verifyProof H s p = Inr True"
proof -
  let ?p = "keyToPath key"
  let ?z = "zeroNode s"
  let ?mk = "entryMark s"
  let ?ss = "sides ?p 0 t"
  let ?sb = "map (th H ?z ?mk) ?ss"
  let ?pr = "\<lparr>entry = [key, v, ?mk], matchingEntry = None, siblings = ?sb,
      proofRoot = root s, membership = truthy v\<rparr>"
  have vp: "validPath ?p" by (rule validKey_validPath [OF k])
  have wf: "wf 0 t" and rt: "root s = th H ?z ?mk t" using R by (simp_all add: represents_def)
  have cp: "checkParameterType s key = None" by (rule validKey_checkParameterType [OF k])
  have f: "focus ?p 0 t = Leaf key v" by (rule entries_focus [OF vp wf e])
  have re: "retrieveEntry s key = Inr (response key ?mk (Leaf key v) ?sb)"
    using retrieveEntry_tree [OF H R vp] f by simp
  have c: "createProof s key = Inr ?pr"
    by (simp add: createProof_def cp re response_def at_def)
  have "calculateRoot H (th H ?z ?mk (Leaf key v)) ?p ?sb = th H ?z ?mk (plug ?p 0 ?ss (Leaf key v))"
    by (rule calculateRoot_tree)
  moreover have "plug ?p 0 ?ss (Leaf key v) = t"
    using plug_sides_focus [of ?p 0 t] f by simp
  ultimately have cr: "calculateRoot H (H [key, v, ?mk]) ?p ?sb = root s"
    by (simp add: rt)
  have v: "verifyProof H s ?pr = Inr True"
    by (simp add: verifyProof_def at_def cr)
  from c v show ?thesis by simp
qed

lemma createProof_absent:
  assumes H: "hashOk H" and R: "represents H s t" and k: "validKey (bigNumbers s) key"
    and fresh: "key \<notin> keys t"
  shows "\<exists>p. createProof s key = Inr p \<and> \<not> membership p \<and> proofRoot p = root s \<and>
     entry p = [key] \<and> verifyProof H s p = Inr True \<and>
     (\<forall>me. matchingEntry p = Some me \<longrightarrow>
        length (siblings p) \<le> sharedLeadingBits (keyToPath key) (keyToPath (hd me)))"
proof -
  let ?p = "keyToPath key"
  let ?z = "zeroNode s"
  let ?mk = "entryMark s"
  let ?ss = "sides ?p 0 t"
  let ?sb = "map (th H ?z ?mk) ?ss"
  have vp: "validPath ?p" by (rule validKey_validPath [OF k])
  have wf: "wf 0 t" and rt: "root s = th H ?z ?mk t" using R by (simp_all add: represents_def)
  have cp: "checkParameterType s key = None" by (rule validKey_checkParameterType [OF k])
  have re: "retrieveEntry s key = Inr (response key ?mk (focus ?p 0 t) ?sb)"
    by (rule retrieveEntry_tree [OF H R vp])
  have len: "length ?ss \<le> 256" using wf_context(5) [OF wf, of ?p] by simp
  show ?thesis
  proof (cases "focus ?p 0 t")
    case Empty
    let ?pr = "\<lparr>entry = [key], matchingEntry = None, siblings = ?sb,
      proofRoot = root s, membership = False\<rparr>"
    have c: "createProof s key = Inr ?pr"
      by (simp add: createProof_def cp re response_def Empty at_def)
    have "calculateRoot H (th H ?z ?mk Empty) ?p ?sb = th H ?z ?mk (plug ?p 0 ?ss Empty)"
      by (rule calculateRoot_tree)
    moreover have "plug ?p 0 ?ss Empty = t"
      using plug_sides_focus [of ?p 0 t] Empty by simp
    ultimately have cr: "calculateRoot H ?z ?p ?sb = root s" by (simp add: rt)
    have v: "verifyProof H s ?pr = Inr True"
      by (simp add: verifyProof_def at_def cr)
    from c v show ?thesis by simp
  next
    case (Leaf k' v')
    let ?q = "keyToPath k'"
    let ?me = "[k', v', ?mk]"
    let ?pr = "\<lparr>entry = [key], matchingEntry = Some ?me, siblings = ?sb,
      proofRoot = root s, membership = False\<rparr>"
    from focus_Leaf_entries [OF Leaf] have "k' \<in> keys t" by (force simp: keys_entries)
    with fresh have ne: "k' \<noteq> key" by blast
    have c: "createProof s key = Inr ?pr"
      using ne by (simp add: createProof_def cp re response_def Leaf at_def)
    have vq: "validPath ?q" using wf_context(2) [OF wf, of ?p] Leaf by simp
    have agree: "?q ! j = ?p ! j" if "j < length ?ss" for j
    proof -
      from wf_context(3) [OF wf, of ?p] Leaf that have "?q ! j = dir ?p j" by simp
      moreover from that len have "j < 256" by simp
      ultimately show ?thesis by (simp add: dir_valid [OF vp])
    qed
    have "plug ?q 0 ?ss (Leaf k' v') = plug ?p 0 ?ss (Leaf k' v')"
    proof (rule plug_cong)
      fix j assume "j < length ?ss"
      from agree [OF this] show "pathTruthy ?q (0 + j) = pathTruthy ?p (0 + j)"
        using vp vq by (simp add: pathTruthy_def at_def validPath_def)
    qed
    moreover have "plug ?p 0 ?ss (Leaf k' v') = t"
      using plug_sides_focus [of ?p 0 t] Leaf by simp
    moreover have "calculateRoot H (th H ?z ?mk (Leaf k' v')) ?q ?sb
        = th H ?z ?mk (plug ?q 0 ?ss (Leaf k' v'))"
      by (rule calculateRoot_tree)
    ultimately have cr: "calculateRoot H (H ?me) ?q ?sb = root s" by (simp add: rt)
    have sh: "length ?ss \<le> sharedLeadingBits ?p ?q"
    proof (rule sharedLeadingBits_ge)
      show "length ?ss \<le> length ?p" using len vp by (simp add: validPath_def)
      show "length ?ss \<le> length ?q" using len vq by (simp add: validPath_def)
      show "\<forall>j<length ?ss. strictEq (?p ! j) (?q ! j)"
      proof (intro allI impI)
        fix j assume j: "j < length ?ss"
        with len have "j < 256" by simp
        from validPath_nth [OF vp this] agree [OF j]
        show "strictEq (?p ! j) (?q ! j)" by (auto simp: strictEq_def)
      qed
    qed
    have v: "verifyProof H s ?pr = Inr True"
      using sh by (simp add: verifyProof_def at_def cr length_getFirstCommonElements)
    from c v sh show ?thesis by simp
  next
    case (Node l r)
    with focus_not_Node [of ?p 0 t] show ?thesis by simp
  qed
qed

section \<open>Insertion of a list of entries\<close>

lemma keyNumber_less:
  assumes "validKey b key"
  shows "keyNumber key < 2 ^ 256"
proof (cases key)
  case (Big k)
  with assms have "0 \<le> k" "k < 2 ^ 256" by (auto simp: validKey_def split: if_splits)
  then have "nat k < nat (2 ^ 256)" by (simp only: nat_less_eq_zless)
  then show ?thesis using Big by (simp add: keyNumber_def)
next
  case (Str x)
  with assms have c: "checkHex (Str x)" by (auto simp: validKey_def split: if_splits)
  have "bv (hexToBin x) < 2 ^ length (hexToBin x)" by (rule bv_less)
  also have "\<dots> \<le> 2 ^ 256" using hexToBin_props(2) [OF c] by (intro power_increasing) simp_all
  finally show ?thesis using hexToBin_props(3) [OF c] Str by simp
qed

lemma keyToPath_inj:
  assumes "validKey b k" and "validKey b k'" and eq: "keyToPath k = keyToPath k'"
  shows "keyNumber k = keyNumber k'"
proof (rule bit_eqI)
  fix i
  let ?f = "\<lambda>n i. if bit (n :: nat) i then N1 else N0"
  show "bit (keyNumber k) i = bit (keyNumber k') i"
  proof (cases "i < 256")
    case True
    from eq keyToPath_bits [OF assms(1)] keyToPath_bits [OF assms(2)]
    have "map (?f (keyNumber k)) [0..<256] = map (?f (keyNumber k')) [0..<256]" by simp
    then have "map (?f (keyNumber k)) [0..<256] ! i = map (?f (keyNumber k')) [0..<256] ! i"
      by (rule arg_cong)
    with True have "?f (keyNumber k) i = ?f (keyNumber k') i"
      by (simp only: nth_map length_upt diff_zero nth_upt add_0)
    then show ?thesis by (simp split: if_splits)
  next
    case False
    then have "(2 :: nat) ^ 256 \<le> 2 ^ i" by (intro power_increasing) simp_all
    with keyNumber_less [OF assms(1)] keyNumber_less [OF assms(2)]
    have "keyNumber k < 2 ^ i" "keyNumber k' < 2 ^ i" by linarith+
    then show ?thesis by (simp add: bit_iff_odd)
  qed
qed

lemma validValue_checkParameterType:
  "validValue (bigNumbers s) v \<Longrightarrow> checkParameterType s v = None"
  by (cases v) (auto simp: validValue_def checkParameterType_def split: if_splits)

lemma addAll_represents:
  assumes H: "hashOk H"
  shows "represents H s t \<Longrightarrow> bigNumbers s = b \<Longrightarrow>
    (\<forall>(k, v)\<in>set kvs. validKey b k \<and> validValue b v) \<Longrightarrow>
    distinct (map (keyNumber \<circ> fst) kvs) \<Longrightarrow>
    (\<forall>k\<in>keys t. validKey b k \<and> keyNumber k \<notin> (keyNumber \<circ> fst) ` set kvs) \<Longrightarrow>
    \<exists>s' t'. addAll H s kvs = Ok s' \<and> represents H s' t' \<and> bigNumbers s' = b \<and>
      entries t' = entries t \<union> set kvs"
proof (induction kvs arbitrary: s t)
  case Nil
  then show ?case by auto
next
  case (Cons kv kvs)
  obtain k v where kv: "kv = (k, v)" by (cases kv)
  from Cons.prems(3) kv have vk: "validKey b k" and vv: "validValue b v" by auto
  from vk Cons.prems(2) have vk': "validKey (bigNumbers s) k" by simp
  from vv Cons.prems(2) have cv: "checkParameterType s v = None"
    by (simp add: validValue_checkParameterType)
  have fresh: "\<forall>k'\<in>keys t. keyToPath k' \<noteq> keyToPath k"
  proof
    fix k' assume k': "k' \<in> keys t"
    with Cons.prems(5) kv have "validKey b k'" "keyNumber k' \<noteq> keyNumber k" by auto
    with keyToPath_inj [OF this(1) vk] show "keyToPath k' \<noteq> keyToPath k" by blast
  qed
  from add_succeeds [OF H Cons.prems(1) vk' cv fresh] obtain s1 where
    a: "add H s k v = Ok s1" by blast
  from add_represents [OF H Cons.prems(1) vk' a] obtain t1 where
    t1: "represents H s1 t1" "bigNumbers s1 = bigNumbers s"
    "entries t1 = insert (k, v) (entries t)" by blast
  from t1(3) have keys1: "keys t1 = insert k (keys t)" by (simp add: keys_entries)
  have p2: "bigNumbers s1 = b" using t1(2) Cons.prems(2) by simp
  have p3: "\<forall>(k, v)\<in>set kvs. validKey b k \<and> validValue b v" using Cons.prems(3) by simp
  have p4: "distinct (map (keyNumber \<circ> fst) kvs)"
    using Cons.prems(4) by (simp only: list.map distinct.simps)
  have p5: "\<forall>k\<in>keys t1. validKey b k \<and> keyNumber k \<notin> (keyNumber \<circ> fst) ` set kvs"
    using Cons.prems(4,5) vk kv unfolding keys1 by (auto simp: comp_def)
  from Cons.IH [OF t1(1) p2 p3 p4 p5] obtain s' t' where
    r: "addAll H s1 kvs = Ok s'" "represents H s' t'" "bigNumbers s' = b"
    "entries t' = entries t1 \<union> set kvs" by blast
  have "addAll H s (kv # kvs) = Ok s'" using a r(1) kv by simp
  moreover have "entries t' = entries t \<union> set (kv # kvs)" using r(4) t1(3) kv by auto
  ultimately show ?case using r(2,3) by blast
qed

section \<open>Keys of reachable trees\<close>

lemma reach_keys_valid: "reach H b s M \<Longrightarrow> M k \<noteq> None \<Longrightarrow> validKey b k"
  by (induction rule: reach.induct) (auto split: if_splits)

lemma keyNumber_inj_big:
  "validKey True k \<Longrightarrow> validKey True k' \<Longrightarrow> keyNumber k = keyNumber k' \<Longrightarrow> k = k'"
  by (cases k; cases k') (auto simp: validKey_def keyNumber_def)

lemma equal_number_equal_path:
  assumes "validKey b k" and "validKey b k'" and "keyNumber k = keyNumber k'"
  shows "keyToPath k = keyToPath k'"
  using keyToPath_bits [OF assms(1)] keyToPath_bits [OF assms(2)] assms(3) by simp

text \<open>Adding a valid entry whose key denotes a number that no key of the tree denotes.\<close>

lemma reach_add_fresh:
  assumes H: "hashOk H" and r: "reach H b s M" and k: "validKey b key"
    and v: "validValue b v"
    and fresh: "\<forall>k'. M k' \<noteq> None \<longrightarrow> keyNumber k' \<noteq> keyNumber key"
  shows "\<exists>s'. add H s key v = Ok s' \<and> reach H b s' (M(key \<mapsto> v))"
proof -
  from reach_represents [OF H r] obtain t where
    t: "represents H s t" "bigNumbers s = b" "entries t = {(k, v). M k = Some v}" by blast
  from k t(2) have k': "validKey (bigNumbers s) key" by simp
  from v t(2) have cv: "checkParameterType s v = None"
    by (simp add: validValue_checkParameterType)
  have "\<forall>k'\<in>keys t. keyToPath k' \<noteq> keyToPath key"
  proof
    fix k' assume "k' \<in> keys t"
    with t(3) have m: "M k' \<noteq> None" by (auto simp: keys_entries)
    with fresh have "keyNumber k' \<noteq> keyNumber key" by blast
    with keyToPath_inj [OF reach_keys_valid [OF r m] k]
    show "keyToPath k' \<noteq> keyToPath key" by blast
  qed
  from add_succeeds [OF H t(1) k' cv this] obtain s' where a: "add H s key v = Ok s'" by blast
  from reach_add [OF r k a] a show ?thesis by blast
qed

text \<open>
  Adding a key that differs from a key of the tree and has the same path: the nodes on
  the path, the root node among them, are deleted from the store, and then the loop
  that extends the siblings throws.
\<close>

lemma add_same_path:
  assumes H: "hashOk H" and R: "represents H s t" and k: "validKey (bigNumbers s) key"
    and v: "checkParameterType s v = None"
    and f: "focus (keyToPath key) 0 t = Leaf k' v'" and ne: "k' \<noteq> key"
    and eq: "keyToPath k' = keyToPath key" and ss: "sides (keyToPath key) 0 t \<noteq> []"
  shows "\<exists>s'. add H s key v = Throw RangeError s' \<and> root s' = root s \<and>
           bigNumbers s' = bigNumbers s \<and> root s \<noteq> zeroNode s \<and>
           nodes s (root s) \<noteq> None \<and> nodes s' (root s') = None"
proof -
  let ?p = "keyToPath key"
  let ?ss = "sides ?p 0 t"
  let ?th = "th H (zeroNode s) (entryMark s)"
  let ?m1 = "\<lambda>h. if h \<in> ?th ` onpath ?p 0 ?ss (Leaf k' v') then None else nodes s h"
  from R have rt: "root s = ?th t" and st: "?th ` nodesOf t \<subseteq> dom (nodes s)"
    by (simp_all add: represents_def)
  from add_at_leaf [OF H R k v f ne] eq
  have a: "add H s key v = Throw RangeError (s\<lparr>nodes := ?m1\<rparr>)" by blast
  from ss obtain x xs where xs: "?ss = x # xs" by (cases ?ss) auto
  have pl: "plug ?p 0 ?ss (Leaf k' v') = t" using plug_sides_focus [of ?p 0 t] f by simp
  then have on: "t \<in> onpath ?p 0 ?ss (Leaf k' v')" unfolding xs by simp
  have nd: "isNode t" using pl unfolding xs by (auto split: if_splits)
  then have "t \<in> nodesOf t" by (cases t) auto
  with st rt have "nodes s (root s) \<noteq> None" by auto
  moreover from on rt have "?m1 (root s) = None" by auto
  moreover from nd rt hashOk_zero [OF H, of s] have "root s \<noteq> zeroNode s"
    by (cases t) auto
  ultimately show ?thesis using a by simp
qed

section \<open>The example hash function for hexadecimal strings\<close>

lemma last_in_dropWhile: "\<not> P c \<Longrightarrow> c \<in> set (dropWhile P (ys @ [c]))"
  by (induction ys) auto

lemma not_isZeroNumber_one: "\<not> isZeroNumber (Str (CHR ''1'' # r))"
proof -
  have "\<not> isWhiteSpace CHR ''1''" by (simp add: isWhiteSpace_def)
  then have "CHR ''1'' \<in> set (dropWhile isWhiteSpace (rev r @ [CHR ''1'']))"
    by (rule last_in_dropWhile)
  then show ?thesis by (auto simp: Let_def list_all_iff)
qed

lemma hashOk_exampleHexHash: "hashOk exampleHexHash"
proof -
  have "inj encodeVal" by (rule injI) (rule encodeVal_inj)
  then have im: "inj (map encodeVal)" by simp
  have "inj exampleHexHash"
  proof (rule injI)
    fix xs ys assume e: "exampleHexHash xs = exampleHexHash ys"
    show "xs = ys"
    proof (cases "xs = [Str ''1'', Str ''1'']"; cases "ys = [Str ''1'', Str ''1'']")
      assume "xs \<noteq> [Str ''1'', Str ''1'']" "ys \<noteq> [Str ''1'', Str ''1'']"
      with e have "replicate (Suc (list_encode (map encodeVal xs))) CHR ''0''
          = replicate (Suc (list_encode (map encodeVal ys))) CHR ''0''"
        by (simp add: exampleHexHash_def)
      then have "length (replicate (Suc (list_encode (map encodeVal xs))) CHR ''0'')
          = length (replicate (Suc (list_encode (map encodeVal ys))) CHR ''0'')"
        by (rule arg_cong)
      then have "list_encode (map encodeVal xs) = list_encode (map encodeVal ys)"
        by (simp only: length_replicate nat.inject)
      then have "map encodeVal xs = map encodeVal ys" by (simp add: list_encode_eq)
      with im show ?thesis by (rule injD)
    qed (use e in \<open>simp_all add: exampleHexHash_def split: if_splits\<close>)
  qed
  moreover have "\<not> isZeroNumber (exampleHexHash xs)" for xs
    unfolding exampleHexHash_def by (simp only: not_isZeroNumber_one if_split) simp
  ultimately show ?thesis by (simp add: hashOk_def)
qed

lemma new_SMT_exampleHexHash: "new_SMT exampleHexHash False = Inr (emptySMT False)"
  by (simp add: new_SMT_def exampleHexHash_def emptySMT_def hexDigit_def)

lemma new_SMT_exampleHash: "new_SMT exampleHash True = Inr (emptySMT True)"
  by (simp add: new_SMT_def exampleHash_def emptySMT_def)

section \<open>The properties of reachable trees\<close>

lemma keyToPath_first:
  assumes "validKey b key"
  shows "\<exists>rest. keyToPath key = (if bit (keyNumber key) 0 then N1 else N0) # rest"
proof -
  let ?f = "\<lambda>i. if bit (keyNumber key) i then N1 else N0"
  have "[0..<256] = 0 # [Suc 0..<256]" by (rule upt_conv_Cons) simp
  then have "map ?f [0..<256] = ?f 0 # map ?f [Suc 0..<256]" by (simp only: list.map)
  with keyToPath_bits [OF assms] show ?thesis by (simp only:) blast
qed

lemma two_entries_example:
  "\<exists>s1 s2. add exampleHash (emptySMT True) (Big 5) (Big 7) = Ok s1 \<and>
     add exampleHash s1 (Big 13) (Big 9) = Ok s2 \<and>
     reach exampleHash True s1 (Map.empty(Big 5 \<mapsto> Big 7)) \<and>
     reach exampleHash True s2 (Map.empty(Big 5 \<mapsto> Big 7, Big 13 \<mapsto> Big 9))"
proof -
  have k5: "validKey True (Big 5)" and k13: "validKey True (Big 13)"
    by (simp_all add: validKey_def)
  have v7: "validValue True (Big 7)" and v9: "validValue True (Big 9)"
    by (simp_all add: validValue_def)
  have f0: "\<forall>k'. Map.empty k' \<noteq> None \<longrightarrow> keyNumber k' \<noteq> keyNumber (Big 5)" by simp
  from reach_add_fresh [OF hashOk_exampleHash reach_new k5 v7 f0] obtain s1 where
    s1: "add exampleHash (emptySMT True) (Big 5) (Big 7) = Ok s1"
    "reach exampleHash True s1 (Map.empty(Big 5 \<mapsto> Big 7))" by blast
  have f1: "\<forall>k'. (Map.empty(Big 5 \<mapsto> Big 7)) k' \<noteq> None \<longrightarrow> keyNumber k' \<noteq> keyNumber (Big 13)"
    by (simp add: keyNumber_def)
  from reach_add_fresh [OF hashOk_exampleHash s1(2) k13 v9 f1] obtain s2 where
    s2: "add exampleHash s1 (Big 13) (Big 9) = Ok s2"
    "reach exampleHash True s2 (Map.empty(Big 5 \<mapsto> Big 7, Big 13 \<mapsto> Big 9))" by blast
  from s1 s2 show ?thesis by blast
qed

text \<open>
  Claim C1.  In an object reached from a new tree by successful operations, when
  \<open>add(key, value)\<close> with a valid key succeeds (so the key was not present),
  \<open>get(key)\<close> on the resulting object returns \<open>value\<close>.
\<close>

theorem add_then_get:
  assumes "hashOk H" and "reach H b s M" and "validKey b key"
    and "add H s key v = Ok s'"
  shows "get s' key = Inr (Some v)"
proof -
  from reach_represents [OF assms(1,2)] obtain t where
    t: "represents H s t" "bigNumbers s = b" by blast
  from assms(3) t(2) have k: "validKey (bigNumbers s) key" by simp
  from add_represents [OF assms(1) t(1) k assms(4)] obtain t' where
    t': "represents H s' t'" "bigNumbers s' = bigNumbers s"
    "entries t' = insert (key, v) (entries t)" by blast
  from k t'(2) have k': "validKey (bigNumbers s') key" by simp
  from t'(3) have "(key, v) \<in> entries t'" by simp
  from get_present [OF assms(1) t'(1) k' this] show ?thesis .
qed

theorem add_then_get_witness:
  "\<exists>s1 s2. add exampleHash (emptySMT True) (Big 5) (Big 7) = Ok s1 \<and>
     add exampleHash s1 (Big 13) (Big 9) = Ok s2 \<and>
     get s2 (Big 13) = Inr (Some (Big 9))"
proof -
  from two_entries_example obtain s1 s2 where
    a: "add exampleHash (emptySMT True) (Big 5) (Big 7) = Ok s1"
    "add exampleHash s1 (Big 13) (Big 9) = Ok s2"
    "reach exampleHash True s1 (Map.empty(Big 5 \<mapsto> Big 7))" by blast
  have k: "validKey True (Big 13)" by (simp add: validKey_def)
  from add_then_get [OF hashOk_exampleHash a(3) k a(2)] a show ?thesis by blast
qed

text \<open>
  Claim C2 does not hold for the value \<open>0n\<close>.  \<open>createProof\<close> computes the
  membership field as \<open>!!entry[1]\<close>, the truthiness of the stored value, and the big
  integer zero is falsy: after \<open>add(1n, 0n)\<close> on a new tree with big numbers, the proof
  of the key \<open>1n\<close> is accepted by \<open>verifyProof\<close> and carries the entry with its value,
  and its membership field is \<open>false\<close>.
\<close>

theorem createProof_membership_false_for_zero_value:
  "\<exists>s1 p. add exampleHash (emptySMT True) (Big 1) (Big 0) = Ok s1 \<and>
     get s1 (Big 1) = Inr (Some (Big 0)) \<and>
     createProof s1 (Big 1) = Inr p \<and> membership p = False \<and>
     verifyProof exampleHash s1 p = Inr True"
proof -
  have k0: "validKey (bigNumbers (emptySMT True)) (Big 1)"
    by (simp add: emptySMT_def validKey_def)
  have "\<exists>s1. add exampleHash (emptySMT True) (Big 1) (Big 0) = Ok s1"
  proof (rule add_succeeds [OF hashOk_exampleHash represents_emptySMT k0])
    show "checkParameterType (emptySMT True) (Big 0) = None"
      by (simp add: emptySMT_def checkParameterType_def)
    show "\<forall>k'\<in>keys Empty. keyToPath k' \<noteq> keyToPath (Big 1)" by simp
  qed
  then obtain s1 where
    a: "add exampleHash (emptySMT True) (Big 1) (Big 0) = Ok s1" by blast
  from add_represents [OF hashOk_exampleHash represents_emptySMT k0 a] obtain t' where
    t': "represents exampleHash s1 t'" "bigNumbers s1 = bigNumbers (emptySMT True)"
    "entries t' = insert (Big 1, Big 0) (entries Empty)" by blast
  from k0 t'(2) have k: "validKey (bigNumbers s1) (Big 1)" by simp
  from t'(3) have e: "(Big 1, Big 0) \<in> entries t'" by simp
  from createProof_present [OF hashOk_exampleHash t'(1) k e] obtain p where
    p: "createProof s1 (Big 1) = Inr p" "membership p = truthy (Big 0)"
    "verifyProof exampleHash s1 p = Inr True" by blast
  from get_present [OF hashOk_exampleHash t'(1) k e] a p show ?thesis by simp
qed

text \<open>
  Claim C3.  In a reachable object, for a valid key that is not in the tree (never
  added, or deleted since), \<open>createProof(key)\<close> returns a proof of that key against the
  current root (its root is the root of the object) whose membership field is
  \<open>false\<close> and which \<open>verifyProof\<close> accepts; when the proof has a matching entry, the
  number of its siblings is at most the number of leading path bits that the key
  shares with the key of the matching entry.
\<close>

theorem createProof_never_added:
  assumes "hashOk H" and "reach H b s M" and "validKey b key" and "M key = None"
  shows "\<exists>p. createProof s key = Inr p \<and> \<not> membership p \<and> proofRoot p = root s \<and>
     entry p = [key] \<and> verifyProof H s p = Inr True \<and>
     (\<forall>me. matchingEntry p = Some me \<longrightarrow>
        length (siblings p) \<le> sharedLeadingBits (keyToPath key) (keyToPath (hd me)))"
proof -
  from reach_represents [OF assms(1,2)] obtain t where
    t: "represents H s t" "bigNumbers s = b" "entries t = {(k, v). M k = Some v}" by blast
  from assms(3) t(2) have k: "validKey (bigNumbers s) key" by simp
  from assms(4) t(3) have "key \<notin> keys t" by (auto simp: keys_entries)
  from createProof_absent [OF assms(1) t(1) k this] show ?thesis .
qed

theorem createProof_never_added_witness:
  "\<exists>s1 s2 p. add exampleHash (emptySMT True) (Big 5) (Big 7) = Ok s1 \<and>
     add exampleHash s1 (Big 13) (Big 9) = Ok s2 \<and>
     createProof s2 (Big 21) = Inr p \<and> \<not> membership p \<and> proofRoot p = root s2 \<and>
     entry p = [Big 21] \<and> verifyProof exampleHash s2 p = Inr True"
proof -
  from two_entries_example obtain s1 s2 where
    a: "add exampleHash (emptySMT True) (Big 5) (Big 7) = Ok s1"
    "add exampleHash s1 (Big 13) (Big 9) = Ok s2"
    "reach exampleHash True s2 (Map.empty(Big 5 \<mapsto> Big 7, Big 13 \<mapsto> Big 9))" by blast
  have k: "validKey True (Big 21)" by (simp add: validKey_def)
  have n: "(Map.empty(Big 5 \<mapsto> Big 7, Big 13 \<mapsto> Big 9)) (Big 21) = None" by simp
  from createProof_never_added [OF hashOk_exampleHash a(3) k n] a(1,2) show ?thesis by blast
qed

text \<open>
  Claim C4.  For a proof that carries a matching entry (and whose entry and matching
  entry carry their keys), \<open>verifyProof\<close> returns true exactly when both hold: the fold
  of the specification, started at the hash of the matching entry and run through the
  siblings along the matching entry's own path, yields the root of the proof, and the
  number of leading path bits that the target key shares with the matching entry's key
  is at least the number of siblings.
\<close>

theorem verifyProof_matching_entry:
  assumes "matchingEntry p = Some (mk # mrest)" and "entry p = k # rest"
  shows "verifyProof hash s p
           = Inr (specFold hash (hash (mk # mrest)) (keyToPath mk) (siblings p) = proofRoot p
                  \<and> length (siblings p) \<le> sharedLeadingBits (keyToPath k) (keyToPath mk))"
proof (cases "length (siblings p) \<le> length (keyToPath mk)")
  case True
  from calculateRoot_specFold [OF True] assms show ?thesis
    by (simp add: verifyProof_def at_def Let_def length_getFirstCommonElements)
next
  case False
  with sharedLeadingBits_le [of "keyToPath k" "keyToPath mk"]
  have "\<not> length (siblings p) \<le> sharedLeadingBits (keyToPath k) (keyToPath mk)" by simp
  with assms show ?thesis
    by (simp add: verifyProof_def at_def Let_def length_getFirstCommonElements)
qed

theorem verifyProof_matching_entry_witness:
  "verifyProof exampleHash (emptySMT True)
     \<lparr>entry = [Big 13], matchingEntry = Some [Big 5, Big 7, Big 1], siblings = [Big 3],
      proofRoot = exampleHash [Big 3, exampleHash [Big 5, Big 7, Big 1]],
      membership = False\<rparr>
   = Inr True"
proof -
  let ?p = "\<lparr>entry = [Big 13], matchingEntry = Some [Big 5, Big 7, Big 1],
      siblings = [Big 3],
      proofRoot = exampleHash [Big 3, exampleHash [Big 5, Big 7, Big 1]],
      membership = False\<rparr>"
  have k5: "validKey True (Big 5)" and k13: "validKey True (Big 13)"
    by (simp_all add: validKey_def)
  from keyToPath_first [OF k5] obtain r5 where p5: "keyToPath (Big 5) = N1 # r5"
    by (auto simp: keyNumber_def bit_0)
  from keyToPath_first [OF k13] obtain r13 where p13: "keyToPath (Big 13) = N1 # r13"
    by (auto simp: keyNumber_def bit_0)
  have fold: "specFold exampleHash (exampleHash [Big 5, Big 7, Big 1]) (keyToPath (Big 5))
      [Big 3] = exampleHash [Big 3, exampleHash [Big 5, Big 7, Big 1]]"
    by (simp add: specFold_def specParent_def p5)
  have shared: "1 \<le> sharedLeadingBits (keyToPath (Big 13)) (keyToPath (Big 5))"
    by (simp add: sharedLeadingBits_def p5 p13 strictEq_def)
  from verifyProof_matching_entry [of ?p "Big 5" "[Big 7, Big 1]" "Big 13" "[]"
      exampleHash "emptySMT True"] fold shared
  show ?thesis by simp
qed

text \<open>
  Claim C5.  In a reachable object, for a valid key that is not present (no key of the
  tree denotes the same number; with big numbers: the key is not in the tree) and a
  valid value, \<open>add(k, v)\<close> succeeds, the following \<open>delete(k)\<close> succeeds, and the root
  is again the root before the call of \<open>add\<close>.
\<close>

theorem add_then_delete_restores_root:
  assumes "hashOk H" and "reach H b s M" and "validKey b key" and "validValue b v"
    and "\<forall>k'. M k' \<noteq> None \<longrightarrow> keyNumber k' \<noteq> keyNumber key"
  shows "\<exists>s1 s2. add H s key v = Ok s1 \<and> delete H s1 key = Ok s2 \<and> root s2 = root s"
proof -
  from reach_add_fresh [OF assms] obtain s1 where a: "add H s key v = Ok s1" by blast
  from reach_represents [OF assms(1,2)] obtain t where
    t: "represents H s t" "bigNumbers s = b" by blast
  from assms(3) t(2) have k: "validKey (bigNumbers s) key" by simp
  from add_represents [OF assms(1) t(1) k a] obtain t1 where
    t1: "represents H s1 t1" "bigNumbers s1 = bigNumbers s"
    "entries t1 = insert (key, v) (entries t)" "key \<notin> keys t" by blast
  from k t1(2) have k1: "validKey (bigNumbers s1) key" by simp
  have wf1: "wf 0 t1" using t1(1) by (simp add: represents_def)
  have wf: "wf 0 t" using t(1) by (simp add: represents_def)
  from t1(3) have "(key, v) \<in> entries t1" by simp
  from entries_focus [OF validKey_validPath [OF assms(3)] wf1 this]
  have f: "focus (keyToPath key) 0 t1 = Leaf key v" .
  from delete_present [OF assms(1) t1(1) k1 f] obtain s2 t2 where
    d: "delete H s1 key = Ok s2" "bigNumbers s2 = bigNumbers s1" "represents H s2 t2"
    "entries t2 = entries t1 - {(key, v)}" by blast
  from t1(4) have "(key, v) \<notin> entries t" by (force simp: keys_entries)
  with d(4) t1(3) have ee: "entries t2 = entries t" by auto
  have wf2: "wf 0 t2" using d(3) by (simp add: represents_def)
  have "t2 = t" by (rule wf_unique [OF wf2 wf ee])
  moreover from d(2) t1(2) have "bigNumbers s2 = bigNumbers s" by simp
  then have "zeroNode s2 = zeroNode s \<and> entryMark s2 = entryMark s"
    by (rule params_of_bigNumbers)
  ultimately have "root s2 = root s" using d(3) t(1) by (simp add: represents_def)
  with a d(1) show ?thesis by blast
qed

theorem add_then_delete_restores_root_witness:
  "\<exists>s1 s2 s3. add exampleHash (emptySMT True) (Big 5) (Big 7) = Ok s1 \<and>
     add exampleHash s1 (Big 13) (Big 9) = Ok s2 \<and>
     delete exampleHash s2 (Big 13) = Ok s3 \<and> root s3 = root s1"
proof -
  from two_entries_example obtain s1 where
    a: "add exampleHash (emptySMT True) (Big 5) (Big 7) = Ok s1"
    "reach exampleHash True s1 (Map.empty(Big 5 \<mapsto> Big 7))" by blast
  have k: "validKey True (Big 13)" by (simp add: validKey_def)
  have v: "validValue True (Big 9)" by (simp add: validValue_def)
  have f: "\<forall>k'. (Map.empty(Big 5 \<mapsto> Big 7)) k' \<noteq> None \<longrightarrow> keyNumber k' \<noteq> keyNumber (Big 13)"
    by (simp add: keyNumber_def)
  from add_then_delete_restores_root [OF hashOk_exampleHash a(2) k v f] a(1)
  show ?thesis by blast
qed

text \<open>
  Claim C6.  For entries with valid keys and values whose keys denote distinct
  numbers, adding them to a new tree one after the other succeeds in every order, and
  two orders of the same set of entries end with the same root.
\<close>

theorem insertion_order_independent:
  assumes "hashOk H"
    and "\<forall>(k, v)\<in>set kvs. validKey b k \<and> validValue b v"
    and "distinct (map (keyNumber \<circ> fst) kvs)"
    and "distinct (map (keyNumber \<circ> fst) kvs')"
    and "set kvs' = set kvs"
  shows "\<exists>s1 s2. addAll H (emptySMT b) kvs = Ok s1 \<and>
     addAll H (emptySMT b) kvs' = Ok s2 \<and> root s1 = root s2"
proof -
  have b: "bigNumbers (emptySMT b) = b" by (simp add: emptySMT_def)
  have e: "\<forall>k\<in>keys Empty. validKey b k \<and> keyNumber k \<notin> (keyNumber \<circ> fst) ` set kvs"
    and e': "\<forall>k\<in>keys Empty. validKey b k \<and> keyNumber k \<notin> (keyNumber \<circ> fst) ` set kvs'"
    by simp_all
  from assms(2,5) have v': "\<forall>(k, v)\<in>set kvs'. validKey b k \<and> validValue b v" by simp
  from addAll_represents [OF assms(1) represents_emptySMT b assms(2,3) e] obtain s1 t1 where
    r1: "addAll H (emptySMT b) kvs = Ok s1" "represents H s1 t1" "bigNumbers s1 = b"
    "entries t1 = entries Empty \<union> set kvs" by blast
  from addAll_represents [OF assms(1) represents_emptySMT b v' assms(4) e'] obtain s2 t2 where
    r2: "addAll H (emptySMT b) kvs' = Ok s2" "represents H s2 t2" "bigNumbers s2 = b"
    "entries t2 = entries Empty \<union> set kvs'" by blast
  from r1(4) r2(4) assms(5) have ee: "entries t1 = entries t2" by simp
  have wf1: "wf 0 t1" and wf2: "wf 0 t2" using r1(2) r2(2) by (simp_all add: represents_def)
  have "t1 = t2" by (rule wf_unique [OF wf1 wf2 ee])
  moreover from r1(3) r2(3) have "bigNumbers s1 = bigNumbers s2" by simp
  then have "zeroNode s1 = zeroNode s2 \<and> entryMark s1 = entryMark s2"
    by (rule params_of_bigNumbers)
  ultimately have "root s1 = root s2" using r1(2) r2(2) by (simp add: represents_def)
  with r1(1) r2(1) show ?thesis by blast
qed

theorem insertion_order_independent_witness:
  "\<exists>s1 s2. addAll exampleHash (emptySMT True) [(Big 5, Big 7), (Big 13, Big 9)] = Ok s1 \<and>
     addAll exampleHash (emptySMT True) [(Big 13, Big 9), (Big 5, Big 7)] = Ok s2 \<and>
     root s1 = root s2"
proof -
  let ?kvs = "[(Big 5, Big 7), (Big 13, Big 9)]"
  let ?kvs' = "[(Big 13, Big 9), (Big 5, Big 7)]"
  have v: "\<forall>(k, v)\<in>set ?kvs. validKey True k \<and> validValue True v"
    by (simp add: validKey_def validValue_def)
  have d: "distinct (map (keyNumber \<circ> fst) ?kvs)" "distinct (map (keyNumber \<circ> fst) ?kvs')"
    by (simp_all add: keyNumber_def)
  have s: "set ?kvs' = set ?kvs" by (simp add: insert_commute)
  from insertion_order_independent [OF hashOk_exampleHash v d s] show ?thesis .
qed

text \<open>
  Claim C7 does not hold for \<open>add\<close> with a hexadecimal key that is another spelling of
  a key of the tree (\<open>"0a"\<close> for \<open>"a"\<close>).  The entry locator ends at the leaf of
  \<open>"a"\<close> and compares the strings, so the key does not count as existing; \<open>add\<close> then
  deletes the nodes of the path from the store, and the loop that extends the siblings
  compares two equal paths, runs past their ends and throws when the array is full.
  The call has failed and the store has lost the node of the root: afterwards
  \<open>get("a")\<close>, which returned the value before, throws.
\<close>

theorem add_of_second_spelling_throws_after_pruning:
  "\<exists>s0 s1 s2 s3. new_SMT exampleHexHash False = Inr s0 \<and>
     add exampleHexHash s0 (Str ''a'') (Str ''1'') = Ok s1 \<and>
     add exampleHexHash s1 (Str ''b'') (Str ''2'') = Ok s2 \<and>
     add exampleHexHash s2 (Str ''0a'') (Str ''3'') = Throw RangeError s3 \<and>
     root s3 = root s2 \<and> nodes s2 (root s2) \<noteq> None \<and> nodes s3 (root s3) = None \<and>
     get s2 (Str ''a'') = Inr (Some (Str ''1'')) \<and> get s3 (Str ''a'') = Inl TypeError"
proof -
  let ?H = exampleHexHash
  let ?a = "Str ''a''" and ?b = "Str ''b''" and ?c = "Str ''0a''"
  let ?M1 = "Map.empty(?a \<mapsto> Str ''1'')"
  let ?M2 = "Map.empty(?a \<mapsto> Str ''1'', ?b \<mapsto> Str ''2'')"
  note H = hashOk_exampleHexHash
  have ka: "validKey False ?a" and kb: "validKey False ?b" and kc: "validKey False ?c"
    by (simp_all add: validKey_def hexDigit_def)
  have v1: "validValue False (Str ''1'')" and v2: "validValue False (Str ''2'')"
    and v3: "validValue False (Str ''3'')"
    by (simp_all add: validValue_def hexDigit_def)
  have f0: "\<forall>k'. Map.empty k' \<noteq> None \<longrightarrow> keyNumber k' \<noteq> keyNumber ?a" by simp
  from reach_add_fresh [OF H reach_new ka v1 f0] obtain s1 where
    s1: "add ?H (emptySMT False) ?a (Str ''1'') = Ok s1" "reach ?H False s1 ?M1" by blast
  have f1: "\<forall>k'. ?M1 k' \<noteq> None \<longrightarrow> keyNumber k' \<noteq> keyNumber ?b"
    by (simp add: keyNumber_def hexDigit_def)
  from reach_add_fresh [OF H s1(2) kb v2 f1] obtain s2 where
    s2: "add ?H s1 ?b (Str ''2'') = Ok s2" "reach ?H False s2 ?M2" by blast
  from reach_represents [OF H s2(2)] obtain t where
    t: "represents ?H s2 t" "bigNumbers s2 = False" "entries t = {(k, v). ?M2 k = Some v}"
    by blast
  have wf: "wf 0 t" using t(1) by (simp add: represents_def)
  have ea: "(?a, Str ''1'') \<in> entries t" and eb: "(?b, Str ''2'') \<in> entries t"
    unfolding t(3) by simp_all
  have ka2: "validKey (bigNumbers s2) ?a" and kc2: "validKey (bigNumbers s2) ?c"
    using ka kc t(2) by simp_all
  have cv: "checkParameterType s2 (Str ''3'') = None"
    using v3 t(2) by (simp add: validValue_checkParameterType)
  have "keyNumber ?c = keyNumber ?a" by (simp add: keyNumber_def hexDigit_def)
  from equal_number_equal_path [OF kc ka this] have pc: "keyToPath ?c = keyToPath ?a" .
  from entries_focus [OF validKey_validPath [OF ka] wf ea]
  have fa: "focus (keyToPath ?a) 0 t = Leaf ?a (Str ''1'')" .
  have ss: "sides (keyToPath ?a) 0 t \<noteq> []"
  proof
    assume "sides (keyToPath ?a) 0 t = []"
    with plug_sides_focus [of "keyToPath ?a" 0 t] fa have "t = Leaf ?a (Str ''1'')" by simp
    with eb show False by simp
  qed
  have ne: "?a \<noteq> ?c" by simp
  have fc: "focus (keyToPath ?c) 0 t = Leaf ?a (Str ''1'')" unfolding pc by (rule fa)
  have ssc: "sides (keyToPath ?c) 0 t \<noteq> []" unfolding pc by (rule ss)
  have pa: "keyToPath ?a = keyToPath ?c" by (simp only: pc)
  from add_same_path [OF H t(1) kc2 cv fc ne pa ssc] obtain s3 where
    s3: "add ?H s2 ?c (Str ''3'') = Throw RangeError s3" "root s3 = root s2"
    "bigNumbers s3 = bigNumbers s2" "root s2 \<noteq> zeroNode s2"
    "nodes s2 (root s2) \<noteq> None" "nodes s3 (root s3) = None" by blast
  have g2: "get s2 ?a = Inr (Some (Str ''1''))" by (rule get_present [OF H t(1) ka2 ea])
  from s3(3) have z: "zeroNode s3 = zeroNode s2" by (simp add: zeroNode_def)
  have ca: "checkParameterType s3 ?a = None"
    using ka2 s3(3) by (simp add: validKey_checkParameterType)
  from s3(2,6) have n3: "nodes s3 (root s2) = None" by simp
  have "retrieveEntry s3 ?a = Inl TypeError"
    unfolding retrieveEntry_def
    by (subst retrieveEntry_loop.simps) (simp add: s3(2,4) z n3)
  with ca have g3: "get s3 ?a = Inl TypeError" by (simp add: get_def)
  from new_SMT_exampleHexHash s1(1) s2(1) s3(1,2,5,6) g2 g3 show ?thesis by blast
qed

text \<open>
  Claim C9.  In an object reached from a new tree by successful operations, the entry
  locator \<open>retrieveEntry\<close> returns for every valid key, and it has descended at most 256
  levels: it has pushed at most 256 siblings, one for each level.
\<close>

theorem retrieveEntry_terminates_within_256:
  assumes "hashOk H" and "reach H b s M" and "validKey b key"
  shows "\<exists>r. retrieveEntry s key = Inr r \<and> length (siblings r) \<le> 256"
proof -
  from reach_represents [OF assms(1,2)] obtain t where
    t: "represents H s t" "bigNumbers s = b" by blast
  have vp: "validPath (keyToPath key)" by (rule validKey_validPath [OF assms(3)])
  have wf: "wf 0 t" using t(1) by (simp add: represents_def)
  from wf_context(5) [OF wf, of "keyToPath key"]
  have "length (sides (keyToPath key) 0 t) \<le> 256" by simp
  with retrieveEntry_tree [OF assms(1) t(1) vp] show ?thesis
    by (simp add: matchingEntry_response)
qed

theorem retrieveEntry_terminates_within_256_witness:
  "\<exists>s1 s2 r. add exampleHash (emptySMT True) (Big 5) (Big 7) = Ok s1 \<and>
     add exampleHash s1 (Big 13) (Big 9) = Ok s2 \<and>
     retrieveEntry s2 (Big 21) = Inr r \<and> length (siblings r) \<le> 256"
proof -
  from two_entries_example obtain s1 s2 where
    a: "add exampleHash (emptySMT True) (Big 5) (Big 7) = Ok s1"
    "add exampleHash s1 (Big 13) (Big 9) = Ok s2"
    "reach exampleHash True s2 (Map.empty(Big 5 \<mapsto> Big 7, Big 13 \<mapsto> Big 9))" by blast
  have k: "validKey True (Big 21)" by (simp add: validKey_def)
  from retrieveEntry_terminates_within_256 [OF hashOk_exampleHash a(3) k] a(1,2)
  show ?thesis by blast
qed

end
